theory Spec2Isabelle
  imports Main "HOL-Library.Word"
begin

section \<open>A model of \<^verbatim>\<open>advanced-vector/vector.h\<close>\<close>

text \<open>
  The header defines two class templates: \<^verbatim>\<open>RawMemory<T>\<close>, the owner of a block of raw
  memory for \<^verbatim>\<open>capacity_\<close> objects of type \<^verbatim>\<open>T\<close>, and \<^verbatim>\<open>Vector<T>\<close>, which owns one
  \<^verbatim>\<open>RawMemory<T>\<close> and keeps the first \<^verbatim>\<open>size_\<close> slots of it constructed.

  Modelling decisions.
  \<^item> A block of raw memory is a list of slots; a slot is \<open>None\<close> while it is raw
    (never constructed, or destroyed) and \<open>Some x\<close> while it holds a live object of
    value \<open>x\<close>. A pointer into the block is the offset from its start.
  \<^item> \<^verbatim>\<open>size_t\<close> has 64 bits. The sizes, capacities and offsets of the code are natural
    numbers here, and the one product that a caller can make leave the range of
    \<^verbatim>\<open>size_t\<close>, the byte count \<^verbatim>\<open>n * sizeof(T)\<close> of \<^verbatim>\<open>Allocate\<close>, is reduced modulo
    \<open>2 ^ 64\<close> as the code computes it: the block is then shorter than \<^verbatim>\<open>capacity_\<close> says,
    and an access behind its end is undefined behaviour. The doubling \<^verbatim>\<open>size_ * 2\<close> is
    computed from the number of live objects and leaves the range only for a vector of
    at least \<open>2 ^ 63\<close> live objects; it is not reduced.
  \<^item> A member function that can throw returns an \<open>outcome\<close>: it returns normally with
    a result and the state after the call, or it throws and leaves the state the
    exception finds, or its behaviour is undefined (a failed \<^verbatim>\<open>assert\<close>, an access
    outside the block, reading or destroying a raw slot, assigning to a raw slot).
  \<^item> The element type \<^verbatim>\<open>T\<close> is a parameter: which of its constructors and assignment
    operators throw, on which values, what a moved-from object holds, and the two
    traits that the code tests with \<^verbatim>\<open>if constexpr\<close>. Copying and moving preserve the
    value. The destructor of \<^verbatim>\<open>T\<close> does not throw.
  \<^item> The names of the data members end in an underscore in the source
    (\<^verbatim>\<open>buffer_\<close>, \<^verbatim>\<open>capacity_\<close>, \<^verbatim>\<open>data_\<close>, \<^verbatim>\<open>size_\<close>); here they end in \<open>_m\<close>.
\<close>

datatype exn = bad_alloc | out_of_range | element_exception

datatype ('r, 's) outcome = Returns 'r 's | Throws exn 's | Undefined

record 'a element_type =
  is_nothrow_move_constructible :: bool
  is_copy_constructible :: bool
  copy_ctor_throws :: "'a \<Rightarrow> bool"
  move_ctor_throws :: "'a \<Rightarrow> bool"
  copy_assign_throws :: "'a \<Rightarrow> bool"
  move_assign_throws :: "'a \<Rightarrow> bool"
  moved_from :: "'a \<Rightarrow> 'a"
  value_initialized :: "'a option"
  operator_new_throws :: "nat \<Rightarrow> bool"
  sizeof_T :: "64 word"

text \<open>
  \<open>copy_ctor_throws E x\<close>: copy construction from an object of value \<open>x\<close> throws;
  likewise for the move constructor and the two assignment operators (on the value of
  the right-hand side). \<open>moved_from E x\<close> is the value left in an object of value \<open>x\<close>
  after it has been moved from. \<open>value_initialized E\<close> is the value of \<^verbatim>\<open>T()\<close>, or \<open>None\<close>
  when value initialization throws. \<open>operator_new_throws E n\<close>: the call of
  \<^verbatim>\<open>operator new\<close> that \<^verbatim>\<open>Allocate(n)\<close> makes fails. \<open>sizeof_T E\<close> is \<^verbatim>\<open>sizeof(T)\<close>, a value
  of \<^verbatim>\<open>size_t\<close>. A move constructor that is \<^verbatim>\<open>noexcept\<close> does not throw.
\<close>

definition move_ctor_may_throw :: "'a element_type \<Rightarrow> 'a \<Rightarrow> bool" where
  "move_ctor_may_throw E x = (\<not> is_nothrow_move_constructible E \<and> move_ctor_throws E x)"

subsection \<open>Slots of a block\<close>

type_synonym 'a buffer = "'a option list"

definition read_at :: "'a buffer \<Rightarrow> nat \<Rightarrow> 'a option" where
  "read_at b p = (if p < length b then b ! p else None)"

definition construct_at :: "'a buffer \<Rightarrow> nat \<Rightarrow> 'a \<Rightarrow> 'a buffer option" where
  "construct_at b p x = (if p < length b then Some (b[p := Some x]) else None)"

definition destroy_at :: "'a buffer \<Rightarrow> nat \<Rightarrow> 'a buffer option" where
  "destroy_at b p = (case read_at b p of None \<Rightarrow> None | Some x \<Rightarrow> Some (b[p := None]))"

text \<open>In the three definitions \<open>None\<close> is undefined behaviour: the slot is outside the
  block, or it is raw where a live object is needed.\<close>

subsection \<open>The algorithms of the standard library that the header calls\<close>

fun destroy_n :: "'a buffer \<Rightarrow> nat \<Rightarrow> nat \<Rightarrow> 'a buffer option" where
  "destroy_n b first 0 = Some b"
| "destroy_n b first (Suc n) =
     (case destroy_at b first of None \<Rightarrow> None | Some b' \<Rightarrow> destroy_n b' (Suc first) n)"

text \<open>The \<^verbatim>\<open>uninitialized_\<close> algorithms construct \<open>n\<close> objects one after the other; when
  a constructor throws they destroy the objects they have constructed and rethrow.\<close>

fun uninitialized_value_construct_n ::
  "'a element_type \<Rightarrow> 'a buffer \<Rightarrow> nat \<Rightarrow> nat \<Rightarrow> (unit, 'a buffer) outcome" where
  "uninitialized_value_construct_n E b first 0 = Returns () b"
| "uninitialized_value_construct_n E b first (Suc n) =
     (if \<not> first < length b then Undefined
      else case value_initialized E of
        None \<Rightarrow> Throws element_exception b
      | Some x \<Rightarrow>
          (case uninitialized_value_construct_n E (b[first := Some x]) (Suc first) n of
             Returns u r \<Rightarrow> Returns u r
           | Throws e r \<Rightarrow>
               (case destroy_at r first of None \<Rightarrow> Undefined | Some r' \<Rightarrow> Throws e r')
           | Undefined \<Rightarrow> Undefined))"

text \<open>The source block and the destination block are different blocks in every call of
  the header; the result is the pair of them.\<close>

fun uninitialized_copy_n ::
  "'a element_type \<Rightarrow> 'a buffer \<Rightarrow> nat \<Rightarrow> nat \<Rightarrow> 'a buffer \<Rightarrow> nat \<Rightarrow>
     (unit, 'a buffer \<times> 'a buffer) outcome" where
  "uninitialized_copy_n E src first 0 dst d_first = Returns () (src, dst)"
| "uninitialized_copy_n E src first (Suc n) dst d_first =
     (case read_at src first of
        None \<Rightarrow> Undefined
      | Some x \<Rightarrow>
          if \<not> d_first < length dst then Undefined
          else if copy_ctor_throws E x then Throws element_exception (src, dst)
          else
            (case uninitialized_copy_n E src (Suc first) n (dst[d_first := Some x]) (Suc d_first) of
               Returns u r \<Rightarrow> Returns u r
             | Throws e (s, r) \<Rightarrow>
                 (case destroy_at r d_first of
                    None \<Rightarrow> Undefined
                  | Some r' \<Rightarrow> Throws e (s, r'))
             | Undefined \<Rightarrow> Undefined))"

fun uninitialized_move_n ::
  "'a element_type \<Rightarrow> 'a buffer \<Rightarrow> nat \<Rightarrow> nat \<Rightarrow> 'a buffer \<Rightarrow> nat \<Rightarrow>
     (unit, 'a buffer \<times> 'a buffer) outcome" where
  "uninitialized_move_n E src first 0 dst d_first = Returns () (src, dst)"
| "uninitialized_move_n E src first (Suc n) dst d_first =
     (case read_at src first of
        None \<Rightarrow> Undefined
      | Some x \<Rightarrow>
          if \<not> d_first < length dst then Undefined
          else if move_ctor_may_throw E x then Throws element_exception (src, dst)
          else
            (case uninitialized_move_n E (src[first := Some (moved_from E x)]) (Suc first) n
                    (dst[d_first := Some x]) (Suc d_first) of
               Returns u r \<Rightarrow> Returns u r
             | Throws e (s, r) \<Rightarrow>
                 (case destroy_at r d_first of
                    None \<Rightarrow> Undefined
                  | Some r' \<Rightarrow> Throws e (s, r'))
             | Undefined \<Rightarrow> Undefined))"

text \<open>\<^verbatim>\<open>std::move(first, last, d_first)\<close> and \<^verbatim>\<open>std::move_backward(first, last, d_last)\<close>
  move-assign within one block, the first from the front and the second from the back.
  A range with \<open>last\<close> before \<open>first\<close> is not a range. An assignment that throws leaves
  the objects assigned so far as they are.\<close>

fun move_loop :: "'a element_type \<Rightarrow> 'a buffer \<Rightarrow> nat \<Rightarrow> nat \<Rightarrow> nat \<Rightarrow> (unit, 'a buffer) outcome" where
  "move_loop E b first 0 d_first = Returns () b"
| "move_loop E b first (Suc n) d_first =
     (case read_at b first of
        None \<Rightarrow> Undefined
      | Some x \<Rightarrow>
          (case read_at b d_first of
             None \<Rightarrow> Undefined
           | Some y \<Rightarrow>
               if move_assign_throws E x then Throws element_exception b
               else move_loop E (b[d_first := Some x, first := Some (moved_from E x)])
                      (Suc first) n (Suc d_first)))"

definition std_move :: "'a element_type \<Rightarrow> 'a buffer \<Rightarrow> nat \<Rightarrow> nat \<Rightarrow> nat \<Rightarrow> (unit, 'a buffer) outcome" where
  "std_move E b first last_p d_first =
     (if first \<le> last_p then move_loop E b first (last_p - first) d_first else Undefined)"

fun move_backward_loop ::
  "'a element_type \<Rightarrow> 'a buffer \<Rightarrow> nat \<Rightarrow> nat \<Rightarrow> nat \<Rightarrow> (unit, 'a buffer) outcome" where
  "move_backward_loop E b 0 last_p d_last = Returns () b"
| "move_backward_loop E b (Suc n) last_p d_last =
     (if last_p = 0 \<or> d_last = 0 then Undefined
      else case read_at b (last_p - 1) of
        None \<Rightarrow> Undefined
      | Some x \<Rightarrow>
          (case read_at b (d_last - 1) of
             None \<Rightarrow> Undefined
           | Some y \<Rightarrow>
               if move_assign_throws E x then Throws element_exception b
               else move_backward_loop E (b[d_last - 1 := Some x, last_p - 1 := Some (moved_from E x)])
                      n (last_p - 1) (d_last - 1)))"

definition std_move_backward ::
  "'a element_type \<Rightarrow> 'a buffer \<Rightarrow> nat \<Rightarrow> nat \<Rightarrow> nat \<Rightarrow> (unit, 'a buffer) outcome" where
  "std_move_backward E b first last_p d_last =
     (if first \<le> last_p then move_backward_loop E b (last_p - first) last_p d_last else Undefined)"

subsection \<open>\<^verbatim>\<open>RawMemory<T>\<close>\<close>

record 'a RawMemory =
  buffer_m :: "'a buffer"
  capacity_m :: nat

definition RawMemory_default :: "'a RawMemory" where
  "RawMemory_default = \<lparr>buffer_m = [], capacity_m = 0\<rparr>"

text \<open>\<^verbatim>\<open>Allocate(n)\<close> asks \<^verbatim>\<open>operator new\<close> for \<^verbatim>\<open>n * sizeof(T)\<close> bytes, a product of two
  values of \<^verbatim>\<open>size_t\<close>. When the product is below \<open>2 ^ 64\<close> the block has room for \<open>n\<close>
  objects. When it is not, the request is the product modulo \<open>2 ^ 64\<close> and the block
  has room for the objects that fit into that many bytes, fewer than \<open>n\<close>; the
  constructor of \<^verbatim>\<open>RawMemory\<close> sets \<^verbatim>\<open>capacity_\<close> to \<open>n\<close> all the same. (\<^verbatim>\<open>sizeof(T)\<close> is
  positive for every type of C++; were it 0, the product would be 0 and in range.)\<close>

definition fits_size_t :: "'a element_type \<Rightarrow> nat \<Rightarrow> bool" where
  "fits_size_t E n = (n * unat (sizeof_T E) < 2 ^ 64)"

definition allocated_slots :: "'a element_type \<Rightarrow> nat \<Rightarrow> nat" where
  "allocated_slots E n =
     (if fits_size_t E n then n
      else ((n * unat (sizeof_T E)) mod 2 ^ 64) div unat (sizeof_T E))"

definition Allocate :: "'a element_type \<Rightarrow> nat \<Rightarrow> exn + 'a buffer" where
  "Allocate E n =
     (if n \<noteq> 0 then
        (if operator_new_throws E n then Inl bad_alloc
         else Inr (replicate (allocated_slots E n) None))
      else Inr [])"

definition RawMemory_sized :: "'a element_type \<Rightarrow> nat \<Rightarrow> exn + 'a RawMemory" where
  "RawMemory_sized E capacity =
     (case Allocate E capacity of
        Inl e \<Rightarrow> Inl e
      | Inr b \<Rightarrow> Inr \<lparr>buffer_m = b, capacity_m = capacity\<rparr>)"

text \<open>\<^verbatim>\<open>operator+\<close> and \<^verbatim>\<open>operator[]\<close> assert that the offset is within the capacity and
  give the address of the slot.\<close>

definition RawMemory_plus :: "'a RawMemory \<Rightarrow> nat \<Rightarrow> nat option" where
  "RawMemory_plus m offset = (if offset \<le> capacity_m m then Some offset else None)"

definition RawMemory_index :: "'a RawMemory \<Rightarrow> nat \<Rightarrow> nat option" where
  "RawMemory_index m index = (if index < capacity_m m then Some index else None)"

definition RawMemory_Swap :: "'a RawMemory \<Rightarrow> 'a RawMemory \<Rightarrow> 'a RawMemory \<times> 'a RawMemory" where
  "RawMemory_Swap m other =
     (m\<lparr>buffer_m := buffer_m other, capacity_m := capacity_m other\<rparr>,
      other\<lparr>buffer_m := buffer_m m, capacity_m := capacity_m m\<rparr>)"

subsection \<open>\<^verbatim>\<open>Vector<T>\<close>\<close>

record 'a Vector =
  data_m :: "'a RawMemory"
  size_m :: nat

text \<open>A vector with the block of its \<^verbatim>\<open>data_\<close> replaced, and the objects it holds.\<close>

definition with_buffer :: "'a Vector \<Rightarrow> 'a buffer \<Rightarrow> 'a Vector" where
  "with_buffer v b = v\<lparr>data_m := (data_m v)\<lparr>buffer_m := b\<rparr>\<rparr>"

definition elements :: "'a Vector \<Rightarrow> 'a list" where
  "elements v = map the (take (size_m v) (buffer_m (data_m v)))"

definition Vector_default :: "'a Vector" where
  "Vector_default = \<lparr>data_m = RawMemory_default, size_m = 0\<rparr>"

definition Size :: "'a Vector \<Rightarrow> nat" where
  "Size v = size_m v"

definition Capacity :: "'a Vector \<Rightarrow> nat" where
  "Capacity v = capacity_m (data_m v)"

definition IsEmpty :: "'a Vector \<Rightarrow> bool" where
  "IsEmpty v = (size_m v = 0)"

text \<open>The destructor destroys the \<^verbatim>\<open>size_\<close> objects; the destructor of \<^verbatim>\<open>data_\<close> then frees
  the block. \<open>None\<close> is undefined behaviour.\<close>

definition Vector_destructor :: "'a Vector \<Rightarrow> unit option" where
  "Vector_destructor v =
     (case destroy_n (buffer_m (data_m v)) 0 (size_m v) of None \<Rightarrow> None | Some b \<Rightarrow> Some ())"

text \<open>The constructors return the object they construct; when they throw there is no
  object, and the block they allocated is freed.\<close>

definition Vector_sized :: "'a element_type \<Rightarrow> nat \<Rightarrow> ('a Vector, unit) outcome" where
  "Vector_sized E size_arg =
     (case RawMemory_sized E size_arg of
        Inl e \<Rightarrow> Throws e ()
      | Inr d \<Rightarrow>
          (case uninitialized_value_construct_n E (buffer_m d) 0 size_arg of
             Returns u b \<Rightarrow> Returns \<lparr>data_m = d\<lparr>buffer_m := b\<rparr>, size_m = size_arg\<rparr> ()
           | Throws e b \<Rightarrow> Throws e ()
           | Undefined \<Rightarrow> Undefined))"

definition Vector_copy :: "'a element_type \<Rightarrow> 'a Vector \<Rightarrow> ('a Vector, unit) outcome" where
  "Vector_copy E other =
     (case RawMemory_sized E (size_m other) of
        Inl e \<Rightarrow> Throws e ()
      | Inr d \<Rightarrow>
          (case uninitialized_copy_n E (buffer_m (data_m other)) 0 (size_m other) (buffer_m d) 0 of
             Returns u (s, b) \<Rightarrow> Returns \<lparr>data_m = d\<lparr>buffer_m := b\<rparr>, size_m = size_m other\<rparr> ()
           | Throws e sb \<Rightarrow> Throws e ()
           | Undefined \<Rightarrow> Undefined))"

text \<open>\<^verbatim>\<open>operator[]\<close> and \<^verbatim>\<open>At\<close> return a reference: the address of the slot. \<open>deref\<close> reads
  the object a reference points to.\<close>

definition deref :: "'a Vector \<Rightarrow> nat \<Rightarrow> 'a option" where
  "deref v p = read_at (buffer_m (data_m v)) p"

definition Vector_index :: "'a Vector \<Rightarrow> nat \<Rightarrow> nat option" where
  "Vector_index v index = (if index < size_m v then RawMemory_index (data_m v) index else None)"

definition At :: "nat \<Rightarrow> 'a Vector \<Rightarrow> (nat, 'a Vector) outcome" where
  "At index v =
     (if index \<ge> size_m v then Throws out_of_range v
      else case RawMemory_index (data_m v) index of
        None \<Rightarrow> Undefined
      | Some p \<Rightarrow> Returns p v)"

text \<open>\<^verbatim>\<open>PushBack\<close> and \<^verbatim>\<open>EmplaceBack\<close>. The argument \<open>val\<close> is the outcome of the
  constructor call \<^verbatim>\<open>T(std::forward<Type>(value))\<close>: the value of the new object, or
  \<open>None\<close> when that constructor throws. When the function leaves the growing branch the
  local \<^verbatim>\<open>new_data\<close> owns the old block (after the swap) or the new one (on an exception)
  and frees it without destroying anything.\<close>

definition PushBack :: "'a element_type \<Rightarrow> 'a option \<Rightarrow> 'a Vector \<Rightarrow> (unit, 'a Vector) outcome" where
  "PushBack E val v =
     (if size_m v = Capacity v then
        (let new_capacity = (if size_m v = 0 then 1 else size_m v * 2) in
         case RawMemory_sized E new_capacity of
           Inl e \<Rightarrow> Throws e v
         | Inr new_data \<Rightarrow>
             (case RawMemory_plus new_data (size_m v) of
                None \<Rightarrow> Undefined
              | Some p \<Rightarrow>
                  (case val of
                     None \<Rightarrow> Throws element_exception v
                   | Some x \<Rightarrow>
                       (case construct_at (buffer_m new_data) p x of
                          None \<Rightarrow> Undefined
                        | Some nb \<Rightarrow>
                            (case (if is_nothrow_move_constructible E \<or> \<not> is_copy_constructible E
                                   then uninitialized_move_n E (buffer_m (data_m v)) 0 (size_m v) nb 0
                                   else uninitialized_copy_n E (buffer_m (data_m v)) 0 (size_m v) nb 0) of
                               Undefined \<Rightarrow> Undefined
                             | Throws e (ob, nb') \<Rightarrow> Throws e (with_buffer v ob)
                             | Returns u (ob, nb') \<Rightarrow>
                                 (case destroy_n ob 0 (size_m v) of
                                    None \<Rightarrow> Undefined
                                  | Some ob' \<Rightarrow>
                                      Returns ()
                                        \<lparr>data_m = new_data\<lparr>buffer_m := nb'\<rparr>,
                                         size_m = size_m v + 1\<rparr>))))))
      else
        (case RawMemory_plus (data_m v) (size_m v) of
           None \<Rightarrow> Undefined
         | Some p \<Rightarrow>
             (case val of
                None \<Rightarrow> Throws element_exception v
              | Some x \<Rightarrow>
                  (case construct_at (buffer_m (data_m v)) p x of
                     None \<Rightarrow> Undefined
                   | Some b \<Rightarrow> Returns () ((with_buffer v b)\<lparr>size_m := size_m v + 1\<rparr>)))))"

definition EmplaceBack :: "'a element_type \<Rightarrow> 'a option \<Rightarrow> 'a Vector \<Rightarrow> (nat, 'a Vector) outcome" where
  "EmplaceBack E args v =
     (if size_m v = Capacity v then
        (let new_capacity = (if size_m v = 0 then 1 else size_m v * 2) in
         case RawMemory_sized E new_capacity of
           Inl e \<Rightarrow> Throws e v
         | Inr new_data \<Rightarrow>
             (case RawMemory_plus new_data (size_m v) of
                None \<Rightarrow> Undefined
              | Some p \<Rightarrow>
                  (case args of
                     None \<Rightarrow> Throws element_exception v
                   | Some x \<Rightarrow>
                       (case construct_at (buffer_m new_data) p x of
                          None \<Rightarrow> Undefined
                        | Some nb \<Rightarrow>
                            (case (if is_nothrow_move_constructible E \<or> \<not> is_copy_constructible E
                                   then uninitialized_move_n E (buffer_m (data_m v)) 0 (size_m v) nb 0
                                   else uninitialized_copy_n E (buffer_m (data_m v)) 0 (size_m v) nb 0) of
                               Undefined \<Rightarrow> Undefined
                             | Throws e (ob, nb') \<Rightarrow> Throws e (with_buffer v ob)
                             | Returns u (ob, nb') \<Rightarrow>
                                 (case destroy_n ob 0 (size_m v) of
                                    None \<Rightarrow> Undefined
                                  | Some ob' \<Rightarrow>
                                      (case RawMemory_index (new_data\<lparr>buffer_m := nb'\<rparr>) (size_m v) of
                                         None \<Rightarrow> Undefined
                                       | Some r \<Rightarrow>
                                           Returns r
                                             \<lparr>data_m = new_data\<lparr>buffer_m := nb'\<rparr>,
                                              size_m = size_m v + 1\<rparr>)))))))
      else
        (case RawMemory_plus (data_m v) (size_m v) of
           None \<Rightarrow> Undefined
         | Some p \<Rightarrow>
             (case args of
                None \<Rightarrow> Throws element_exception v
              | Some x \<Rightarrow>
                  (case construct_at (buffer_m (data_m v)) p x of
                     None \<Rightarrow> Undefined
                   | Some b \<Rightarrow>
                       (case RawMemory_index (data_m (with_buffer v b)) (size_m v) of
                          None \<Rightarrow> Undefined
                        | Some r \<Rightarrow> Returns r ((with_buffer v b)\<lparr>size_m := size_m v + 1\<rparr>))))))"

definition PopBack :: "'a Vector \<Rightarrow> (unit, 'a Vector) outcome" where
  "PopBack v =
     (if size_m v \<noteq> 0 then
        (let v1 = v\<lparr>size_m := size_m v - 1\<rparr> in
         case RawMemory_plus (data_m v1) (size_m v1) of
           None \<Rightarrow> Undefined
         | Some p \<Rightarrow>
             (case destroy_at (buffer_m (data_m v1)) p of
                None \<Rightarrow> Undefined
              | Some b \<Rightarrow> Returns () (with_buffer v1 b)))
      else Returns () v)"

definition Clear :: "'a Vector \<Rightarrow> (unit, 'a Vector) outcome" where
  "Clear v =
     (case destroy_n (buffer_m (data_m v)) 0 (size_m v) of
        None \<Rightarrow> Undefined
      | Some b \<Rightarrow> Returns () ((with_buffer v b)\<lparr>size_m := 0\<rparr>))"

definition Reserve :: "'a element_type \<Rightarrow> nat \<Rightarrow> 'a Vector \<Rightarrow> (unit, 'a Vector) outcome" where
  "Reserve E new_capacity v =
     (if new_capacity \<le> size_m v then Returns () v
      else
        (case RawMemory_sized E new_capacity of
           Inl e \<Rightarrow> Throws e v
         | Inr new_data \<Rightarrow>
             (case (if is_nothrow_move_constructible E \<or> \<not> is_copy_constructible E
                    then uninitialized_move_n E (buffer_m (data_m v)) 0 (size_m v) (buffer_m new_data) 0
                    else uninitialized_copy_n E (buffer_m (data_m v)) 0 (size_m v) (buffer_m new_data) 0) of
                Undefined \<Rightarrow> Undefined
              | Throws e (ob, nb) \<Rightarrow> Throws e (with_buffer v ob)
              | Returns u (ob, nb) \<Rightarrow>
                  (case destroy_n ob 0 (size_m v) of
                     None \<Rightarrow> Undefined
                   | Some ob' \<Rightarrow>
                       Returns () \<lparr>data_m = new_data\<lparr>buffer_m := nb\<rparr>, size_m = size_m v\<rparr>))))"

definition Resize :: "'a element_type \<Rightarrow> nat \<Rightarrow> 'a Vector \<Rightarrow> (unit, 'a Vector) outcome" where
  "Resize E new_size v =
     (if new_size > size_m v then
        (case Reserve E new_size v of
           Undefined \<Rightarrow> Undefined
         | Throws e v' \<Rightarrow> Throws e v'
         | Returns u v1 \<Rightarrow>
             (case RawMemory_plus (data_m v1) (size_m v1) of
                None \<Rightarrow> Undefined
              | Some p \<Rightarrow>
                  (case uninitialized_value_construct_n E (buffer_m (data_m v1)) p
                          (new_size - size_m v1) of
                     Undefined \<Rightarrow> Undefined
                   | Throws e b \<Rightarrow> Throws e (with_buffer v1 b)
                   | Returns u' b \<Rightarrow> Returns () ((with_buffer v1 b)\<lparr>size_m := new_size\<rparr>))))
      else
        (case RawMemory_plus (data_m v) new_size of
           None \<Rightarrow> Undefined
         | Some p \<Rightarrow>
             (case destroy_n (buffer_m (data_m v)) p (size_m v - new_size) of
                None \<Rightarrow> Undefined
              | Some b \<Rightarrow> Returns () ((with_buffer v b)\<lparr>size_m := new_size\<rparr>))))"

text \<open>\<^verbatim>\<open>Emplace\<close>. An iterator is the offset of its slot from \<^verbatim>\<open>begin()\<close>. The function is
  given in three parts: the branch that grows the block (lines 230 to 244 of the
  header), the branch that shifts in place (lines 245 to 250), and the function that
  chooses between them and \<^verbatim>\<open>EmplaceBack\<close>. \<^verbatim>\<open>Insert\<close> forwards to \<^verbatim>\<open>Emplace\<close>.\<close>

definition Emplace_growing :: "'a element_type \<Rightarrow> nat \<Rightarrow> 'a option \<Rightarrow> 'a Vector \<Rightarrow> (nat, 'a Vector) outcome" where
  "Emplace_growing E new_index args v =
     (let new_capacity = (if size_m v = 0 then 1 else size_m v * 2) in
      case RawMemory_sized E new_capacity of
        Inl e \<Rightarrow> Throws e v
      | Inr new_data \<Rightarrow>
          (case RawMemory_plus new_data new_index of
             None \<Rightarrow> Undefined
           | Some p \<Rightarrow>
               (case args of
                  None \<Rightarrow> Throws element_exception v
                | Some x \<Rightarrow>
                    (case construct_at (buffer_m new_data) p x of
                       None \<Rightarrow> Undefined
                     | Some nb \<Rightarrow>
                         (case (if is_nothrow_move_constructible E \<or> \<not> is_copy_constructible E
                                then
                                  (case uninitialized_move_n E (buffer_m (data_m v)) 0 new_index nb 0 of
                                     Undefined \<Rightarrow> Undefined
                                   | Throws e sb \<Rightarrow> Throws e sb
                                   | Returns u (ob1, nb1) \<Rightarrow>
                                       (case RawMemory_plus (data_m v) new_index of
                                          None \<Rightarrow> Undefined
                                        | Some f \<Rightarrow>
                                            (case RawMemory_plus new_data new_index of
                                               None \<Rightarrow> Undefined
                                             | Some d \<Rightarrow>
                                                 uninitialized_move_n E ob1 f (size_m v - new_index)
                                                   nb1 (d + 1))))
                                else
                                  (case uninitialized_copy_n E (buffer_m (data_m v)) 0 new_index nb 0 of
                                     Undefined \<Rightarrow> Undefined
                                   | Throws e sb \<Rightarrow> Throws e sb
                                   | Returns u (ob1, nb1) \<Rightarrow>
                                       (case RawMemory_plus (data_m v) new_index of
                                          None \<Rightarrow> Undefined
                                        | Some f \<Rightarrow>
                                            (case RawMemory_plus new_data new_index of
                                               None \<Rightarrow> Undefined
                                             | Some d \<Rightarrow>
                                                 uninitialized_copy_n E ob1 f (size_m v - new_index)
                                                   nb1 (d + 1))))) of
                            Undefined \<Rightarrow> Undefined
                          | Throws e (ob, nb') \<Rightarrow> Throws e (with_buffer v ob)
                          | Returns u (ob, nb') \<Rightarrow>
                              (case destroy_n ob 0 (size_m v) of
                                 None \<Rightarrow> Undefined
                               | Some ob' \<Rightarrow>
                                   Returns new_index
                                     \<lparr>data_m = new_data\<lparr>buffer_m := nb'\<rparr>,
                                      size_m = size_m v + 1\<rparr>))))))"

definition Emplace_in_place :: "'a element_type \<Rightarrow> nat \<Rightarrow> 'a option \<Rightarrow> 'a Vector \<Rightarrow> (nat, 'a Vector) outcome" where
  "Emplace_in_place E new_index args v =
     (case args of
        None \<Rightarrow> Throws element_exception v
      | Some tmp \<Rightarrow>
          (case RawMemory_plus (data_m v) (size_m v) of
             None \<Rightarrow> Undefined
           | Some end_p \<Rightarrow>
               (case RawMemory_index (data_m v) (size_m v - 1) of
                  None \<Rightarrow> Undefined
                | Some back_p \<Rightarrow>
                    (case read_at (buffer_m (data_m v)) back_p of
                       None \<Rightarrow> Undefined
                     | Some x \<Rightarrow>
                         if \<not> end_p < length (buffer_m (data_m v)) then Undefined
                         else if move_ctor_may_throw E x then Throws element_exception v
                         else
                           (let b1 = (buffer_m (data_m v))
                                       [end_p := Some x, back_p := Some (moved_from E x)] in
                            case RawMemory_plus (data_m v) new_index of
                              None \<Rightarrow> Undefined
                            | Some f \<Rightarrow>
                                (case std_move_backward E b1 f (end_p - 1) end_p of
                                   Undefined \<Rightarrow> Undefined
                                 | Throws e b2 \<Rightarrow> Throws e (with_buffer v b2)
                                 | Returns u b2 \<Rightarrow>
                                     (case RawMemory_index (data_m v) new_index of
                                        None \<Rightarrow> Undefined
                                      | Some q \<Rightarrow>
                                          (case read_at b2 q of
                                             None \<Rightarrow> Undefined
                                           | Some y \<Rightarrow>
                                               if move_assign_throws E tmp
                                               then Throws element_exception (with_buffer v b2)
                                               else
                                                 Returns new_index
                                                   ((with_buffer v (b2[q := Some tmp]))
                                                      \<lparr>size_m := size_m v + 1\<rparr>)))))))))"

definition Emplace :: "'a element_type \<Rightarrow> nat \<Rightarrow> 'a option \<Rightarrow> 'a Vector \<Rightarrow> (nat, 'a Vector) outcome" where
  "Emplace E pos args v =
     (if \<not> pos \<le> size_m v then Undefined
      else if pos = size_m v then EmplaceBack E args v
      else if size_m v = Capacity v then Emplace_growing E pos args v
      else Emplace_in_place E pos args v)"

definition Insert :: "'a element_type \<Rightarrow> nat \<Rightarrow> 'a option \<Rightarrow> 'a Vector \<Rightarrow> (nat, 'a Vector) outcome" where
  "Insert E pos val v = Emplace E pos val v"

text \<open>\<^verbatim>\<open>Erase\<close>: the first \<^verbatim>\<open>assert\<close> admits \<^verbatim>\<open>pos == end()\<close>, the call of \<^verbatim>\<open>std::move\<close> that
  follows does not: its range would start behind its end.\<close>

definition Erase :: "'a element_type \<Rightarrow> nat \<Rightarrow> 'a Vector \<Rightarrow> (nat, 'a Vector) outcome" where
  "Erase E pos v =
     (if \<not> pos \<le> size_m v then Undefined
      else if \<not> size_m v \<noteq> 0 then Undefined
      else
        (let new_index = pos in
         case RawMemory_plus (data_m v) (size_m v) of
           None \<Rightarrow> Undefined
         | Some end_p \<Rightarrow>
             (case std_move E (buffer_m (data_m v)) (new_index + 1) end_p new_index of
                Undefined \<Rightarrow> Undefined
              | Throws e b \<Rightarrow> Throws e (with_buffer v b)
              | Returns u b \<Rightarrow>
                  (case destroy_at b (end_p - 1) of
                     None \<Rightarrow> Undefined
                   | Some b' \<Rightarrow>
                       Returns new_index ((with_buffer v b')\<lparr>size_m := size_m v - 1\<rparr>)))))"

subsection \<open>Operations on two vectors\<close>

text \<open>\<^verbatim>\<open>Swap\<close> exchanges the members of two objects.\<close>

definition Vector_Swap :: "'a Vector \<Rightarrow> 'a Vector \<Rightarrow> 'a Vector \<times> 'a Vector" where
  "Vector_Swap v other =
     (case RawMemory_Swap (data_m v) (data_m other) of
        (d, od) \<Rightarrow> (\<lparr>data_m = d, size_m = size_m other\<rparr>, \<lparr>data_m = od, size_m = size_m v\<rparr>))"

text \<open>The loop \<^verbatim>\<open>for (index = 0; index != n; ++index) data_[index] = rhs.data_[index]\<close> of
  the copy assignment, from \<open>index\<close> with \<open>k\<close> iterations to go.\<close>

fun copy_assign_loop ::
  "'a element_type \<Rightarrow> 'a RawMemory \<Rightarrow> 'a RawMemory \<Rightarrow> nat \<Rightarrow> nat \<Rightarrow> (unit, 'a RawMemory) outcome" where
  "copy_assign_loop E d rd index 0 = Returns () d"
| "copy_assign_loop E d rd index (Suc k) =
     (case RawMemory_index d index of
        None \<Rightarrow> Undefined
      | Some p \<Rightarrow>
          (case RawMemory_index rd index of
             None \<Rightarrow> Undefined
           | Some q \<Rightarrow>
               (case read_at (buffer_m rd) q of
                  None \<Rightarrow> Undefined
                | Some x \<Rightarrow>
                    (case read_at (buffer_m d) p of
                       None \<Rightarrow> Undefined
                     | Some y \<Rightarrow>
                         if copy_assign_throws E x then Throws element_exception d
                         else copy_assign_loop E (d\<lparr>buffer_m := (buffer_m d)[p := Some x]\<rparr>) rd
                                (Suc index) k))))"

text \<open>The copy assignment \<^verbatim>\<open>*this = rhs\<close> for two different objects: the body of the
  test \<^verbatim>\<open>this != &rhs\<close>. In the first branch the local \<^verbatim>\<open>rhs_copy\<close> holds the old members
  after the swap and is destroyed at the end of the block.\<close>

definition copy_assign_other :: "'a element_type \<Rightarrow> 'a Vector \<Rightarrow> 'a Vector \<Rightarrow> (unit, 'a Vector) outcome" where
  "copy_assign_other E v rhs =
     (if size_m rhs > capacity_m (data_m v) then
        (case Vector_copy E rhs of
           Undefined \<Rightarrow> Undefined
         | Throws e u \<Rightarrow> Throws e v
         | Returns rhs_copy u \<Rightarrow>
             (case Vector_Swap v rhs_copy of
                (v', rhs_copy') \<Rightarrow>
                  (case Vector_destructor rhs_copy' of
                     None \<Rightarrow> Undefined
                   | Some u' \<Rightarrow> Returns () v')))
      else if size_m v > size_m rhs then
        (case copy_assign_loop E (data_m v) (data_m rhs) 0 (size_m rhs) of
           Undefined \<Rightarrow> Undefined
         | Throws e d \<Rightarrow> Throws e (v\<lparr>data_m := d\<rparr>)
         | Returns u d \<Rightarrow>
             (case RawMemory_plus d (size_m rhs) of
                None \<Rightarrow> Undefined
              | Some p \<Rightarrow>
                  (case destroy_n (buffer_m d) p (size_m v - size_m rhs) of
                     None \<Rightarrow> Undefined
                   | Some b \<Rightarrow>
                       Returns () \<lparr>data_m = d\<lparr>buffer_m := b\<rparr>, size_m = size_m rhs\<rparr>)))
      else
        (case copy_assign_loop E (data_m v) (data_m rhs) 0 (size_m v) of
           Undefined \<Rightarrow> Undefined
         | Throws e d \<Rightarrow> Throws e (v\<lparr>data_m := d\<rparr>)
         | Returns u d \<Rightarrow>
             (case RawMemory_plus (data_m rhs) (size_m v) of
                None \<Rightarrow> Undefined
              | Some f \<Rightarrow>
                  (case RawMemory_plus d (size_m v) of
                     None \<Rightarrow> Undefined
                   | Some p \<Rightarrow>
                       (case uninitialized_copy_n E (buffer_m (data_m rhs)) f (size_m rhs - size_m v)
                               (buffer_m d) p of
                          Undefined \<Rightarrow> Undefined
                        | Throws e (sb, b) \<Rightarrow> Throws e \<lparr>data_m = d\<lparr>buffer_m := b\<rparr>, size_m = size_m v\<rparr>
                        | Returns u' (sb, b) \<Rightarrow>
                            Returns () \<lparr>data_m = d\<lparr>buffer_m := b\<rparr>, size_m = size_m rhs\<rparr>)))))"

text \<open>Whether two vectors are the same object decides what the assignments do, so the
  operations on two vectors act on a store: a map from the address of a vector to its
  members.\<close>

type_synonym 'a store = "nat \<Rightarrow> 'a Vector"

definition Swap :: "nat \<Rightarrow> nat \<Rightarrow> 'a store \<Rightarrow> 'a store" where
  "Swap this other s =
     (case Vector_Swap (s this) (s other) of
        (v, ov) \<Rightarrow> (s(this := v))(other := ov))"

text \<open>The move constructor builds the object at \<open>this\<close> from the default member
  initializers and swaps it with \<open>other\<close>.\<close>

definition Vector_move :: "nat \<Rightarrow> nat \<Rightarrow> 'a store \<Rightarrow> 'a store" where
  "Vector_move this other s = Swap this other (s(this := Vector_default))"

definition move_assign :: "nat \<Rightarrow> nat \<Rightarrow> 'a store \<Rightarrow> 'a store" where
  "move_assign this rhs s = (if this \<noteq> rhs then Swap this rhs s else s)"

definition copy_assign :: "'a element_type \<Rightarrow> nat \<Rightarrow> nat \<Rightarrow> 'a store \<Rightarrow> (unit, 'a store) outcome" where
  "copy_assign E this rhs s =
     (if this \<noteq> rhs then
        (case copy_assign_other E (s this) (s rhs) of
           Undefined \<Rightarrow> Undefined
         | Throws e v \<Rightarrow> Throws e (s(this := v))
         | Returns u v \<Rightarrow> Returns () (s(this := v)))
      else Returns () s)"

subsection \<open>The invariant of the class\<close>

text \<open>The block has \<^verbatim>\<open>capacity_\<close> slots, \<^verbatim>\<open>size_\<close> is at most the capacity, the slots
  before \<^verbatim>\<open>size_\<close> hold live objects and the slots from \<^verbatim>\<open>size_\<close> on are raw.\<close>

definition live_slots :: "'a Vector \<Rightarrow> nat list" where
  "live_slots v = filter (\<lambda>i. buffer_m (data_m v) ! i \<noteq> None) [0 ..< length (buffer_m (data_m v))]"

definition invariant :: "'a Vector \<Rightarrow> bool" where
  "invariant v =
     (length (buffer_m (data_m v)) = capacity_m (data_m v) \<and>
      size_m v \<le> capacity_m (data_m v) \<and>
      live_slots v = [0 ..< size_m v])"

text \<open>An element type none of whose operations throws, with allocation that never
  fails: \<^verbatim>\<open>int\<close>, say.\<close>

definition nothrow_type :: "64 word \<Rightarrow> 'a \<Rightarrow> 'a element_type" where
  "nothrow_type sz z =
     \<lparr>is_nothrow_move_constructible = True, is_copy_constructible = True,
      copy_ctor_throws = (\<lambda>x. False), move_ctor_throws = (\<lambda>x. False),
      copy_assign_throws = (\<lambda>x. False), move_assign_throws = (\<lambda>x. False),
      moved_from = (\<lambda>x. x), value_initialized = Some z,
      operator_new_throws = (\<lambda>n. False), sizeof_T = sz\<rparr>"

text \<open>Repeated appends: \<open>(True, x)\<close> appends \<open>x\<close> with \<^verbatim>\<open>EmplaceBack\<close>, \<open>(False, x)\<close> with
  \<^verbatim>\<open>PushBack\<close>. The result is \<open>None\<close> when one of the calls does not return normally.\<close>

fun appends :: "'a element_type \<Rightarrow> (bool \<times> 'a) list \<Rightarrow> 'a Vector \<Rightarrow> 'a Vector option" where
  "appends E [] v = Some v"
| "appends E ((emplace, x) # xs) v =
     (if emplace then
        (case EmplaceBack E (Some x) v of Returns r v' \<Rightarrow> appends E xs v' | Throws e v' \<Rightarrow> None | Undefined \<Rightarrow> None)
      else
        (case PushBack E (Some x) v of Returns r v' \<Rightarrow> appends E xs v' | Throws e v' \<Rightarrow> None | Undefined \<Rightarrow> None))"

text \<open>Concrete vectors of \<^verbatim>\<open>int\<close> for the examples.\<close>

definition int_type :: "int element_type" where
  "int_type = nothrow_type 4 0"

definition vec_123 :: "int Vector" where
  "vec_123 = \<lparr>data_m = \<lparr>buffer_m = [Some 1, Some 2, Some 3, None], capacity_m = 4\<rparr>, size_m = 3\<rparr>"

definition vec_1 :: "int Vector" where
  "vec_1 = \<lparr>data_m = \<lparr>buffer_m = [Some 1], capacity_m = 1\<rparr>, size_m = 1\<rparr>"

definition vec_23 :: "int Vector" where
  "vec_23 = \<lparr>data_m = \<lparr>buffer_m = [Some 2, Some 3], capacity_m = 2\<rparr>, size_m = 2\<rparr>"

definition two_vectors :: "int store" where
  "two_vectors = ((\<lambda>a. Vector_default)(0 := vec_23))(1 := vec_1)"

definition vec_cap8 :: "int Vector" where
  "vec_cap8 = \<lparr>data_m = \<lparr>buffer_m = [None, None, None, None, None, None, None, None], capacity_m = 8\<rparr>, size_m = 0\<rparr>"

definition vec_1_cap8 :: "int Vector" where
  "vec_1_cap8 = \<lparr>data_m = \<lparr>buffer_m = [Some 1, None, None, None, None, None, None, None], capacity_m = 8\<rparr>, size_m = 1\<rparr>"

definition vec_12_cap8 :: "int Vector" where
  "vec_12_cap8 = \<lparr>data_m = \<lparr>buffer_m = [Some 1, Some 2, None, None, None, None, None, None], capacity_m = 8\<rparr>, size_m = 2\<rparr>"

definition vec_12_cap4 :: "int Vector" where
  "vec_12_cap4 = \<lparr>data_m = \<lparr>buffer_m = [Some 1, Some 2, None, None], capacity_m = 4\<rparr>, size_m = 2\<rparr>"

text \<open>Which slots of a block are live; and an element type that never throws, with an
  allocation that never fails.\<close>



definition liveness :: "'a buffer \<Rightarrow> bool list" where
  "liveness b = map (\<lambda>s. s \<noteq> None) b"

definition never_throws :: "'a element_type \<Rightarrow> bool" where
  "never_throws E =
     ((\<forall>x. \<not> copy_ctor_throws E x \<and> \<not> move_ctor_may_throw E x \<and>
           \<not> copy_assign_throws E x \<and> \<not> move_assign_throws E x) \<and>
      (\<forall>n. \<not> operator_new_throws E n) \<and> value_initialized E \<noteq> None)"

text \<open>The constructor that the \<^verbatim>\<open>if constexpr\<close> of the growing branches selects for the
  transfer of the old elements throws on the value \<open>x\<close>.\<close>

definition transfer_throws :: "'a element_type \<Rightarrow> 'a \<Rightarrow> bool" where
  "transfer_throws E x =
     (if is_nothrow_move_constructible E \<or> \<not> is_copy_constructible E
      then move_ctor_may_throw E x else copy_ctor_throws E x)"

text \<open>An element type whose move assignment throws and whose other operations do not;
  and the vector \<open>[1, 2, 3]\<close> of capacity 4 with a fourth live object behind its size.\<close>

definition throwing_assign_type :: "int element_type" where
  "throwing_assign_type = int_type\<lparr>move_assign_throws := (\<lambda>x. True)\<rparr>"

definition vec_123_live4 :: "int Vector" where
  "vec_123_live4 = \<lparr>data_m = \<lparr>buffer_m = [Some 1, Some 2, Some 3, Some 3], capacity_m = 4\<rparr>, size_m = 3\<rparr>"

text \<open>The states of a vector that the public operations reach from a constructed vector,
  by a normal return or by an exception that the caller catches, as long as the byte
  counts stay in the range of \<^verbatim>\<open>size_t\<close>: the argument of \<^verbatim>\<open>Reserve\<close> and \<^verbatim>\<open>Resize\<close> fits, and
  so does twice the size where an exception leaves \<^verbatim>\<open>Insert\<close>. One kind of exception is
  left out: an exception that leaves the in-place branch of \<^verbatim>\<open>Emplace\<close> after that branch
  has constructed the object in slot \<open>size\<close>. A vector that is the other operand of an
  assignment or of a copy construction is itself reachable. \<^verbatim>\<open>Swap\<close>, the move
  constructor and the move assignment exchange the members of reachable vectors and the
  default vector, and an assignment of a vector to itself changes nothing, so they reach
  no further states.\<close>

inductive reachable :: "'a element_type \<Rightarrow> 'a Vector \<Rightarrow> bool" for E :: "'a element_type" where
  reach_default: "reachable E Vector_default"
| reach_sized: "Vector_sized E n = Returns v () \<Longrightarrow> reachable E v"
| reach_copy: "reachable E w \<Longrightarrow> Vector_copy E w = Returns v () \<Longrightarrow> reachable E v"
| reach_copy_assign:
    "reachable E v \<Longrightarrow> reachable E w \<Longrightarrow>
     copy_assign_other E v w = Returns u v' \<or> copy_assign_other E v w = Throws e v' \<Longrightarrow>
     reachable E v'"
| reach_PushBack:
    "reachable E v \<Longrightarrow> PushBack E a v = Returns u v' \<or> PushBack E a v = Throws e v' \<Longrightarrow>
     reachable E v'"
| reach_EmplaceBack:
    "reachable E v \<Longrightarrow> EmplaceBack E a v = Returns p v' \<or> EmplaceBack E a v = Throws e v' \<Longrightarrow>
     reachable E v'"
| reach_Insert: "reachable E v \<Longrightarrow> Insert E p a v = Returns q v' \<Longrightarrow> reachable E v'"
| reach_Insert_throws:
    "reachable E v \<Longrightarrow> Insert E p a v = Throws e v' \<Longrightarrow>
     p = size_m v \<or> size_m v = Capacity v \<or> a = None \<or>
       move_ctor_may_throw E (elements v ! (size_m v - 1)) \<Longrightarrow>
     fits_size_t E (size_m v * 2) \<Longrightarrow>
     reachable E v'"
| reach_PopBack: "reachable E v \<Longrightarrow> PopBack v = Returns u v' \<Longrightarrow> reachable E v'"
| reach_Erase:
    "reachable E v \<Longrightarrow> Erase E p v = Returns q v' \<or> Erase E p v = Throws e v' \<Longrightarrow>
     reachable E v'"
| reach_Clear: "reachable E v \<Longrightarrow> Clear v = Returns u v' \<Longrightarrow> reachable E v'"
| reach_Resize:
    "reachable E v \<Longrightarrow> fits_size_t E n \<Longrightarrow>
     Resize E n v = Returns u v' \<or> Resize E n v = Throws e v' \<Longrightarrow>
     reachable E v'"
| reach_Reserve:
    "reachable E v \<Longrightarrow> fits_size_t E n \<Longrightarrow>
     Reserve E n v = Returns u v' \<or> Reserve E n v = Throws e v' \<Longrightarrow>
     reachable E v'"

section \<open>Properties\<close>

subsection \<open>Requests that fit \<^verbatim>\<open>size_t\<close>\<close>

lemma fits_size_t_1: "fits_size_t E 1" "fits_size_t E (Suc 0)" "fits_size_t E 0"
proof -
  have "unat (sizeof_T E) < 2 ^ 64" using unsigned_less [of "sizeof_T E"] by simp
  then show "fits_size_t E 1" "fits_size_t E (Suc 0)" "fits_size_t E 0"
    by (simp_all add: fits_size_t_def)
qed

lemma fits_size_t_mono: "m \<le> n \<Longrightarrow> fits_size_t E n \<Longrightarrow> fits_size_t E m"
proof -
  assume a: "m \<le> n" "fits_size_t E n"
  have "m * unat (sizeof_T E) \<le> n * unat (sizeof_T E)" using a(1) by simp
  then show ?thesis using a(2) unfolding fits_size_t_def by linarith
qed

lemma allocated_slots_fits: "fits_size_t E n \<Longrightarrow> allocated_slots E n = n"
  by (simp add: allocated_slots_def)

lemma Allocate_fits:
  "fits_size_t E n \<Longrightarrow>
   Allocate E n =
     (if n \<noteq> 0 then (if operator_new_throws E n then Inl bad_alloc else Inr (replicate n None))
      else Inr [])"
  by (simp add: Allocate_def allocated_slots_fits)

lemma RawMemory_sized_fits:
  "fits_size_t E n \<Longrightarrow>
   RawMemory_sized E n =
     (if n \<noteq> 0 \<and> operator_new_throws E n then Inl bad_alloc
      else Inr \<lparr>buffer_m = replicate n None, capacity_m = n\<rparr>)"
  by (simp add: RawMemory_sized_def Allocate_fits)

lemma allocated_slots_overflow:
  assumes "\<not> fits_size_t E n"
  shows "allocated_slots E n < n"
proof -
  let ?sz = "unat (sizeof_T E)"
  have ge: "2 ^ 64 \<le> n * ?sz" using assms by (simp add: fits_size_t_def)
  have "(n * ?sz) mod 2 ^ 64 < 2 ^ 64" by simp
  then have "(n * ?sz) mod 2 ^ 64 < n * ?sz" using ge by linarith
  then have "((n * ?sz) mod 2 ^ 64) div ?sz < n" by (rule less_mult_imp_div_less)
  then show ?thesis using assms by (simp add: allocated_slots_def)
qed

lemma allocated_slots_doubling:
  assumes "\<not> fits_size_t E (s * 2)"
  shows "allocated_slots E (s * 2) \<le> s"
proof -
  let ?sz = "unat (sizeof_T E)"
  have ge: "2 ^ 64 \<le> s * 2 * ?sz" using assms by (simp add: fits_size_t_def)
  have b: "(s * 2 * ?sz) mod 2 ^ 64 < (s + 1) * ?sz"
  proof (cases "s * ?sz < 2 ^ 64")
    case True
    then have "s * 2 * ?sz - 2 ^ 64 < 2 ^ 64" by simp
    then have "(s * 2 * ?sz) mod 2 ^ 64 = s * 2 * ?sz - 2 ^ 64"
      using ge by (simp add: mod_if)
    then show ?thesis using True ge by simp
  next
    case False
    have "(s * 2 * ?sz) mod 2 ^ 64 < 2 ^ 64" by simp
    then show ?thesis using False by simp
  qed
  have "((s * 2 * ?sz) mod 2 ^ 64) div ?sz < s + 1" using b by (rule less_mult_imp_div_less)
  then show ?thesis using assms by (simp add: allocated_slots_def)
qed

lemma allocated_slots_le: "allocated_slots E n \<le> n"
  using allocated_slots_overflow [of E n] allocated_slots_fits [of E n] by (cases "fits_size_t E n") simp_all

lemma RawMemory_sized_eq:
  "RawMemory_sized E n =
     (if n \<noteq> 0 \<and> operator_new_throws E n then Inl bad_alloc
      else Inr \<lparr>buffer_m = replicate (allocated_slots E n) None, capacity_m = n\<rparr>)"
  using allocated_slots_le [of E 0] by (simp add: RawMemory_sized_def Allocate_def)

lemma RawMemory_sized_capacity: "RawMemory_sized E n = Inr nd \<Longrightarrow> capacity_m nd = n"
  by (auto simp: RawMemory_sized_eq split: if_splits)

text \<open>The same two definitions computed in \<open>int\<close>, for the evaluation of examples.\<close>

lemma fits_size_t_code [code]: "fits_size_t E n = (int n * uint (sizeof_T E) < 2 ^ 64)"
proof -
  have "int (n * unat (sizeof_T E)) = int n * uint (sizeof_T E)" by simp
  moreover have "(n * unat (sizeof_T E) < 2 ^ 64) = (int (n * unat (sizeof_T E)) < int (2 ^ 64))"
    by (simp only: of_nat_less_iff)
  ultimately show ?thesis unfolding fits_size_t_def by simp
qed

lemma allocated_slots_code [code]:
  "allocated_slots E n =
     (if fits_size_t E n then n
      else nat (((int n * uint (sizeof_T E)) mod 2 ^ 64) div uint (sizeof_T E)))"
proof -
  have "int (((n * unat (sizeof_T E)) mod 2 ^ 64) div unat (sizeof_T E)) =
        ((int n * uint (sizeof_T E)) mod 2 ^ 64) div uint (sizeof_T E)"
    by (simp add: zdiv_int zmod_int)
  then have "((n * unat (sizeof_T E)) mod 2 ^ 64) div unat (sizeof_T E) =
        nat (((int n * uint (sizeof_T E)) mod 2 ^ 64) div uint (sizeof_T E))"
    by linarith
  then show ?thesis unfolding allocated_slots_def by simp
qed

subsection \<open>The invariant, slot by slot\<close>

lemma filter_upt_prefix:
  assumes "k \<le> n"
  shows "(filter P [0..<n] = [0..<k]) = (\<forall>i<n. P i = (i < k))"
proof
  assume h: "filter P [0..<n] = [0..<k]"
  show "\<forall>i<n. P i = (i < k)"
  proof (intro allI impI)
    fix i assume i: "i < n"
    have "(i \<in> set (filter P [0..<n])) = (i \<in> set [0..<k])" by (simp only: h)
    then show "P i = (i < k)" using i by simp
  qed
next
  assume h: "\<forall>i<n. P i = (i < k)"
  have "[0..<k + (n - k)] = [0..<k] @ [k..<k + (n - k)]"
    by (rule upt_add_eq_append) simp
  then have split: "[0..<n] = [0..<k] @ [k..<n]" using assms by simp
  have a: "filter P [0..<k] = [0..<k]"
  proof (rule filter_True)
    show "\<forall>x\<in>set [0..<k]. P x" using h assms by simp
  qed
  have b: "filter P [k..<n] = []"
  proof (rule filter_False)
    show "\<forall>x\<in>set [k..<n]. \<not> P x" using h by simp
  qed
  show "filter P [0..<n] = [0..<k]" by (simp only: split filter_append a b append_Nil2)
qed

lemma invariant_iff:
  "invariant v =
     (length (buffer_m (data_m v)) = capacity_m (data_m v) \<and>
      size_m v \<le> capacity_m (data_m v) \<and>
      (\<forall>i<capacity_m (data_m v). (buffer_m (data_m v) ! i \<noteq> None) = (i < size_m v)))"
proof (cases "length (buffer_m (data_m v)) = capacity_m (data_m v) \<and> size_m v \<le> capacity_m (data_m v)")
  case True
  then show ?thesis
    unfolding invariant_def live_slots_def
    using filter_upt_prefix [of "size_m v" "capacity_m (data_m v)" "\<lambda>i. buffer_m (data_m v) ! i \<noteq> None"]
    by simp
next
  case False
  then show ?thesis unfolding invariant_def by blast
qed

lemma invariantD:
  assumes "invariant v"
  shows "length (buffer_m (data_m v)) = capacity_m (data_m v)"
    and "size_m v \<le> capacity_m (data_m v)"
    and "i < size_m v \<Longrightarrow> \<exists>x. buffer_m (data_m v) ! i = Some x"
    and "size_m v \<le> i \<Longrightarrow> i < capacity_m (data_m v) \<Longrightarrow> buffer_m (data_m v) ! i = None"
proof -
  note h = assms [unfolded invariant_iff]
  show "length (buffer_m (data_m v)) = capacity_m (data_m v)" using h by blast
  show le: "size_m v \<le> capacity_m (data_m v)" using h by blast
  show "\<exists>x. buffer_m (data_m v) ! i = Some x" if "i < size_m v"
  proof -
    have "i < capacity_m (data_m v)" using that le by simp
    then have "buffer_m (data_m v) ! i \<noteq> None" using h that by blast
    then show ?thesis by blast
  qed
  show "buffer_m (data_m v) ! i = None" if "size_m v \<le> i" "i < capacity_m (data_m v)"
  proof -
    have "(buffer_m (data_m v) ! i \<noteq> None) = (i < size_m v)" using h that(2) by blast
    then show ?thesis using that(1) by simp
  qed
qed

lemma invariantI:
  assumes "length (buffer_m (data_m v)) = capacity_m (data_m v)"
    and "size_m v \<le> capacity_m (data_m v)"
    and "\<And>i. i < size_m v \<Longrightarrow> buffer_m (data_m v) ! i \<noteq> None"
    and "\<And>i. size_m v \<le> i \<Longrightarrow> i < capacity_m (data_m v) \<Longrightarrow> buffer_m (data_m v) ! i = None"
  shows "invariant v"
  unfolding invariant_iff
proof (intro conjI allI impI)
  fix i assume "i < capacity_m (data_m v)"
  then show "(buffer_m (data_m v) ! i \<noteq> None) = (i < size_m v)"
    using assms(3) [of i] assms(4) [of i] by (cases "i < size_m v") simp_all
qed (rule assms(1), rule assms(2))

lemma invariant_default: "invariant Vector_default"
  by (simp add: invariant_def live_slots_def Vector_default_def RawMemory_default_def)

lemma invariant_vec_123: "invariant vec_123"
  by (simp add: invariant_def live_slots_def vec_123_def upt_rec)

lemma invariant_vec_1: "invariant vec_1"
  by (simp add: invariant_def live_slots_def vec_1_def upt_rec)

lemma invariant_vec_23: "invariant vec_23"
  by (simp add: invariant_def live_slots_def vec_23_def upt_rec)

subsection \<open>Assignment to itself\<close>

text \<open>
  Claim C10. Assigning a vector to itself, by copy assignment \<^verbatim>\<open>a = a\<close> or by move
  assignment \<^verbatim>\<open>a = std::move(a)\<close>, changes nothing: the store after the call is the store
  before it, so the vector has the same size, the same capacity and the same elements,
  and the copy assignment returns normally.
\<close>

theorem self_assignment_unchanged:
  "copy_assign E a a s = Returns () s \<and> move_assign a a s = s"
  by (simp add: copy_assign_def move_assign_def)

theorem self_assignment_unchanged_witness:
  "copy_assign int_type 0 0 two_vectors = Returns () two_vectors \<and>
   move_assign 0 0 two_vectors = two_vectors \<and>
   elements (two_vectors 0) = [2, 3]"
  using self_assignment_unchanged [of int_type 0 two_vectors]
  by (simp add: two_vectors_def vec_23_def elements_def)

subsection \<open>Checked access\<close>

text \<open>
  Claim C6. For a vector of size \<open>n\<close> (in a state that satisfies the class invariant),
  \<^verbatim>\<open>At(i)\<close> throws \<^verbatim>\<open>out_of_range\<close> exactly when \<open>i \<ge> n\<close>, and the vector after the
  exception is the vector before the call; otherwise it returns the reference to slot
  \<open>i\<close>, which holds element \<open>i\<close>. In particular \<^verbatim>\<open>At(n)\<close> and \<^verbatim>\<open>At(n+1)\<close> throw, and
  \<^verbatim>\<open>At(n-1)\<close> returns when \<open>n > 0\<close>.
\<close>

theorem At_checked:
  assumes "invariant v"
  shows "At i v = (if size_m v \<le> i then Throws out_of_range v else Returns i v) \<and>
         (i < size_m v \<longrightarrow> deref v i = Some (elements v ! i)) \<and>
         At (size_m v) v = Throws out_of_range v \<and>
         At (size_m v + 1) v = Throws out_of_range v \<and>
         (0 < size_m v \<longrightarrow> At (size_m v - 1) v = Returns (size_m v - 1) v)"
proof -
  note inv = invariantD [OF assms]
  have at: "At j v = (if size_m v \<le> j then Throws out_of_range v else Returns j v)" for j
    using inv(2) by (simp add: At_def RawMemory_index_def)
  have "deref v i = Some (elements v ! i)" if "i < size_m v"
  proof -
    from inv(3) [OF that] obtain x where "buffer_m (data_m v) ! i = Some x" by blast
    then show ?thesis using that inv(1) inv(2) by (simp add: deref_def read_at_def elements_def)
  qed
  moreover have "size_m v \<le> size_m v - 1 \<Longrightarrow> size_m v = 0" by arith
  ultimately show ?thesis by (auto simp: at)
qed

theorem At_checked_witness:
  "invariant vec_123 \<and> size_m vec_123 = 3 \<and>
   At 3 vec_123 = Throws out_of_range vec_123 \<and>
   At 4 vec_123 = Throws out_of_range vec_123 \<and>
   At 2 vec_123 = Returns 2 vec_123 \<and> deref vec_123 2 = Some 3"
  using At_checked [OF invariant_vec_123, of 2] At_checked [OF invariant_vec_123, of 3]
    invariant_vec_123
  by (simp add: vec_123_def elements_def)

subsection \<open>\<^verbatim>\<open>PopBack\<close>\<close>

lemma PopBack_eq:
  assumes "invariant v"
  shows "PopBack v =
    (if size_m v \<noteq> 0
     then Returns () ((with_buffer v ((buffer_m (data_m v))[size_m v - 1 := None]))\<lparr>size_m := size_m v - 1\<rparr>)
     else Returns () v)"
proof (cases "size_m v = 0")
  case True
  then show ?thesis by (simp add: PopBack_def)
next
  case False
  note inv = invariantD [OF assms]
  from False have "size_m v - 1 < size_m v" by simp
  from inv(3) [OF this] obtain x where x: "buffer_m (data_m v) ! (size_m v - 1) = Some x" by blast
  show ?thesis using False inv(1) inv(2) x
    by (simp add: PopBack_def RawMemory_plus_def destroy_at_def read_at_def with_buffer_def Let_def)
qed

lemma invariant_shrink_one:
  assumes "invariant v" "size_m v \<noteq> 0"
  shows "invariant ((with_buffer v ((buffer_m (data_m v))[size_m v - 1 := None]))\<lparr>size_m := size_m v - 1\<rparr>)"
proof -
  note inv = invariantD [OF assms(1)]
  show ?thesis
  proof (rule invariantI)
    fix i
    assume "i < size_m ((with_buffer v ((buffer_m (data_m v))[size_m v - 1 := None]))\<lparr>size_m := size_m v - 1\<rparr>)"
    then have i: "i < size_m v - 1" by (simp add: with_buffer_def)
    then have "i < size_m v" by simp
    from inv(3) [OF this] show "buffer_m (data_m ((with_buffer v ((buffer_m (data_m v))[size_m v - 1 := None]))\<lparr>size_m := size_m v - 1\<rparr>)) ! i \<noteq> None"
      using i by (auto simp: with_buffer_def)
  next
    fix i
    assume a: "size_m ((with_buffer v ((buffer_m (data_m v))[size_m v - 1 := None]))\<lparr>size_m := size_m v - 1\<rparr>) \<le> i"
      and b: "i < capacity_m (data_m ((with_buffer v ((buffer_m (data_m v))[size_m v - 1 := None]))\<lparr>size_m := size_m v - 1\<rparr>))"
    from a have a': "size_m v - 1 \<le> i" by (simp add: with_buffer_def)
    from b have b': "i < capacity_m (data_m v)" by (simp add: with_buffer_def)
    show "buffer_m (data_m ((with_buffer v ((buffer_m (data_m v))[size_m v - 1 := None]))\<lparr>size_m := size_m v - 1\<rparr>)) ! i = None"
    proof (cases "i = size_m v - 1")
      case True
      then show ?thesis using b' inv(1) by (simp add: with_buffer_def)
    next
      case False
      then have "size_m v \<le> i" using a' by simp
      from inv(4) [OF this b'] show ?thesis using False by (simp add: with_buffer_def)
    qed
  qed (use inv(1) inv(2) in \<open>simp_all add: with_buffer_def\<close>)
qed

text \<open>
  Claim C9. On a vector that is not empty, \<^verbatim>\<open>PopBack\<close> returns normally, destroys the
  object in the last live slot and nothing else (the block afterwards is the block
  before with slot \<open>size - 1\<close> raw), decreases the size by one, leaves the capacity and
  the first \<open>size - 1\<close> elements as they are, and keeps the invariant. On an empty
  vector it returns without changing anything.
\<close>

theorem PopBack_removes_last:
  assumes "invariant v"
  shows "(size_m v \<noteq> 0 \<longrightarrow>
           (\<exists>v'. PopBack v = Returns () v' \<and> size_m v' = size_m v - 1 \<and>
                 Capacity v' = Capacity v \<and>
                 buffer_m (data_m v') = (buffer_m (data_m v))[size_m v - 1 := None] \<and>
                 elements v' = butlast (elements v) \<and> invariant v')) \<and>
         (size_m v = 0 \<longrightarrow> PopBack v = Returns () v)"
proof (cases "size_m v = 0")
  case True
  then show ?thesis using PopBack_eq [OF assms] by simp
next
  case False
  note inv = invariantD [OF assms]
  let ?v' = "(with_buffer v ((buffer_m (data_m v))[size_m v - 1 := None]))\<lparr>size_m := size_m v - 1\<rparr>"
  have 1: "PopBack v = Returns () ?v'" using PopBack_eq [OF assms] False by simp
  have "take (size_m v - 1) ((buffer_m (data_m v))[size_m v - 1 := None])
          = take (size_m v - 1) (buffer_m (data_m v))" by simp
  moreover have "take (size_m v - 1) (buffer_m (data_m v)) = butlast (take (size_m v) (buffer_m (data_m v)))"
    using inv(1) inv(2) False by (simp add: butlast_take)
  ultimately have 2: "elements ?v' = butlast (elements v)"
    by (simp add: elements_def with_buffer_def map_butlast)
  have 3: "invariant ?v'" using invariant_shrink_one [OF assms False] .
  show ?thesis using False 1 2 3 by (simp add: with_buffer_def Capacity_def)
qed

theorem PopBack_removes_last_witness:
  "invariant vec_123 \<and> size_m vec_123 \<noteq> 0 \<and>
   PopBack vec_123 =
     Returns () \<lparr>data_m = \<lparr>buffer_m = [Some 1, Some 2, None, None], capacity_m = 4\<rparr>, size_m = 2\<rparr> \<and>
   elements vec_123 = [1, 2, 3] \<and>
   PopBack Vector_default = Returns () (Vector_default :: int Vector)"
  using PopBack_removes_last [OF invariant_vec_123]
    PopBack_removes_last [OF invariant_default, where ?'a = int] invariant_vec_123
  by (simp add: vec_123_def elements_def Vector_default_def PopBack_def RawMemory_plus_def
      destroy_at_def read_at_def with_buffer_def)

subsection \<open>An append whose new element cannot be constructed\<close>

text \<open>
  Claim C3. When the size of the vector equals its capacity, \<^verbatim>\<open>PushBack\<close> and
  \<^verbatim>\<open>EmplaceBack\<close> allocate the new block and construct the new element in it before
  they touch the old block. If that construction throws (the argument \<open>None\<close>), the
  call throws and the vector after the exception is the vector before the call: same
  size, same capacity, same block. The exception is the one of the constructor, or
  \<^verbatim>\<open>bad_alloc\<close> when the allocation has failed before.
\<close>

theorem append_strong_guarantee:
  assumes "size_m v = Capacity v"
  shows "PushBack E None v =
           Throws (if operator_new_throws E (if size_m v = 0 then 1 else size_m v * 2)
                   then bad_alloc else element_exception) v \<and>
         EmplaceBack E None v =
           Throws (if operator_new_throws E (if size_m v = 0 then 1 else size_m v * 2)
                   then bad_alloc else element_exception) v"
  using assms
  by (simp add: PushBack_def EmplaceBack_def RawMemory_sized_def Allocate_def RawMemory_plus_def Let_def)

theorem append_strong_guarantee_witness:
  "size_m vec_1 = Capacity vec_1 \<and>
   PushBack int_type None vec_1 = Throws element_exception vec_1 \<and>
   EmplaceBack int_type None vec_1 = Throws element_exception vec_1"
proof -
  have h: "size_m vec_1 = Capacity vec_1" by (simp add: vec_1_def Capacity_def)
  show ?thesis
    using h append_strong_guarantee [OF h, of int_type]
    by (simp add: int_type_def nothrow_type_def vec_1_def)
qed

subsection \<open>Moving a vector\<close>

lemma Vector_Swap_eq: "Vector_Swap v other = (other, v)"
  by (simp add: Vector_Swap_def RawMemory_Swap_def)

lemma Swap_eq: "Swap this other s = (s(this := s other))(other := s this)"
  by (simp add: Swap_def Vector_Swap_eq)

lemma PushBack_default:
  "PushBack E (Some x) Vector_default =
     (if operator_new_throws E 1 then Throws bad_alloc Vector_default
      else Returns () \<lparr>data_m = \<lparr>buffer_m = [Some x], capacity_m = 1\<rparr>, size_m = 1\<rparr>)"
  by (simp add: PushBack_def Vector_default_def RawMemory_default_def Capacity_def
      RawMemory_sized_fits fits_size_t_1 RawMemory_plus_def construct_at_def)

text \<open>
  Claim C2 says that after a move, by construction or by assignment, the source has
  size 0. The move assignment is a swap: after \<^verbatim>\<open>b = std::move(a)\<close> the source \<open>a\<close> holds
  what \<open>b\<close> held before. With \<open>b\<close> the vector \<open>[1]\<close> at address 1 and \<open>a\<close> the vector
  \<open>[2, 3]\<close> at address 0, the source has size 1 after the assignment.
\<close>

theorem move_assign_source_not_empty:
  "Size (move_assign 1 0 two_vectors 0) = 1 \<and> elements (move_assign 1 0 two_vectors 0) = [1]"
  by (simp add: move_assign_def Swap_eq two_vectors_def vec_1_def vec_23_def Size_def elements_def)

text \<open>
  Claim C2, amended. Neither move allocates or can fail: it exchanges the members of
  the two objects and does nothing else. After the move construction of a new vector
  from \<open>a\<close>, the new vector holds the former members of \<open>a\<close>, and \<open>a\<close> is the
  default-constructed vector: size 0, capacity 0, the invariant holds, and an append to
  it behaves as on a new vector. After the move assignment \<^verbatim>\<open>b = std::move(a)\<close> of two
  different vectors, \<open>b\<close> holds the former members of \<open>a\<close> and \<open>a\<close> holds the former
  members of \<open>b\<close>: the size of \<open>a\<close> is the former size of \<open>b\<close> (0 when \<open>b\<close> was empty),
  and \<open>a\<close> satisfies the invariant when \<open>b\<close> did.
\<close>

theorem move_exchanges_members:
  assumes "this \<noteq> a"
  shows "Vector_move this a s = (s(this := s a))(a := Vector_default) \<and>
         Size (Vector_move this a s a) = 0 \<and>
         Capacity (Vector_move this a s a) = 0 \<and>
         invariant (Vector_move this a s a) \<and>
         PushBack E (Some x) (Vector_move this a s a) =
           (if operator_new_throws E 1 then Throws bad_alloc Vector_default
            else Returns () \<lparr>data_m = \<lparr>buffer_m = [Some x], capacity_m = 1\<rparr>, size_m = 1\<rparr>) \<and>
         move_assign this a s = (s(this := s a))(a := s this) \<and>
         Size (move_assign this a s a) = Size (s this) \<and>
         (Size (s this) = 0 \<longrightarrow> Size (move_assign this a s a) = 0) \<and>
         (invariant (s this) \<longrightarrow> invariant (move_assign this a s a))"
proof -
  have 1: "Vector_move this a s = (s(this := s a))(a := Vector_default)"
    using assms by (simp add: Vector_move_def Swap_eq)
  have 2: "move_assign this a s = (s(this := s a))(a := s this)"
    using assms by (simp add: move_assign_def Swap_eq)
  have 3: "Vector_move this a s a = Vector_default" by (simp add: 1)
  have 4: "move_assign this a s a = s this" by (simp add: 2)
  have 5: "Size (Vector_default :: 'a Vector) = 0" "Capacity (Vector_default :: 'a Vector) = 0"
    by (simp_all add: Size_def Capacity_def Vector_default_def RawMemory_default_def)
  show ?thesis
    unfolding 3 4 using 1 2 5 invariant_default PushBack_default [of E x] by simp
qed

theorem move_exchanges_members_witness:
  "(1::nat) \<noteq> 0 \<and>
   Vector_move 2 0 two_vectors 0 = Vector_default \<and>
   Vector_move 2 0 two_vectors 2 = vec_23 \<and>
   move_assign 1 0 two_vectors 1 = vec_23 \<and>
   move_assign 1 0 two_vectors 0 = vec_1 \<and>
   invariant (move_assign 1 0 two_vectors 0)"
proof -
  have h: "(1::nat) \<noteq> 0" "(2::nat) \<noteq> 0" by simp_all
  have i: "invariant (two_vectors 1)" using invariant_vec_1 by (simp add: two_vectors_def)
  show ?thesis
    using move_exchanges_members [OF h(1), of two_vectors int_type 0]
      move_exchanges_members [OF h(2), of two_vectors int_type 0] i
    by (simp add: two_vectors_def)
qed

subsection \<open>\<^verbatim>\<open>Reserve\<close>\<close>

text \<open>
  Claim C1 says that \<^verbatim>\<open>Reserve(n)\<close> does nothing when the capacity is already at least
  \<open>n\<close>, so that it never decreases the capacity. The function returns early when
  \<open>n \<le> size_\<close>, not when \<open>n \<le> Capacity()\<close>: for a request between the size and the
  capacity it allocates a block of \<open>n\<close> slots and moves the elements over. A vector of
  \<^verbatim>\<open>int\<close> is given capacity 8 by \<^verbatim>\<open>Reserve(8)\<close> and the elements 1 and 2 by two calls of
  \<^verbatim>\<open>PushBack\<close>; \<^verbatim>\<open>Reserve(4)\<close> then leaves it with capacity 4.
\<close>

theorem Reserve_decreases_capacity:
  "Reserve int_type 8 Vector_default = Returns () vec_cap8 \<and>
   PushBack int_type (Some 1) vec_cap8 = Returns () vec_1_cap8 \<and>
   PushBack int_type (Some 2) vec_1_cap8 = Returns () vec_12_cap8 \<and>
   Capacity vec_12_cap8 = 8 \<and> size_m vec_12_cap8 = 2 \<and>
   Reserve int_type 4 vec_12_cap8 = Returns () vec_12_cap4 \<and>
   Capacity vec_12_cap4 = 4"
  by code_simp

subsection \<open>Blocks of slots and the algorithms on them\<close>

lemma liveness_length [simp]: "length (liveness b) = length b"
  by (simp add: liveness_def)

lemma liveness_nth: "i < length b \<Longrightarrow> liveness b ! i = (b ! i \<noteq> None)"
  by (simp add: liveness_def)

lemma liveness_update: "liveness (b[i := s]) = (liveness b)[i := (s \<noteq> None)]"
  by (simp add: liveness_def map_update)

lemma liveness_update_live:
  assumes "i < length b \<Longrightarrow> b ! i \<noteq> None"
  shows "liveness (b[i := Some x]) = liveness b"
proof (cases "i < length b")
  case True
  then have "(liveness b)[i := True] = liveness b"
    using assms by (simp add: list_update_same_conv liveness_nth)
  then show ?thesis by (simp add: liveness_update)
next
  case False
  then show ?thesis by (simp add: list_update_beyond)
qed

lemma liveness_eqD:
  assumes "liveness r = liveness b"
  shows "length r = length b" and "i < length b \<Longrightarrow> (r ! i \<noteq> None) = (b ! i \<noteq> None)"
proof -
  show l: "length r = length b" using assms by (metis liveness_length)
  show "(r ! i \<noteq> None) = (b ! i \<noteq> None)" if "i < length b"
    using liveness_nth [of i r] liveness_nth [of i b] that l assms by simp
qed

lemma destroy_at_live:
  assumes "p < length b" "b ! p \<noteq> None"
  shows "destroy_at b p = Some (b[p := None])"
  using assms by (auto simp: destroy_at_def read_at_def)

lemma destroy_n_live:
  assumes "f + n \<le> length b" "\<And>i. i < n \<Longrightarrow> b ! (f + i) \<noteq> None"
  shows "\<exists>b'. destroy_n b f n = Some b' \<and> length b' = length b \<and>
           (\<forall>i<length b. b' ! i = (if f \<le> i \<and> i < f + n then None else b ! i))"
  using assms
proof (induction n arbitrary: b f)
  case 0
  then show ?case by auto
next
  case (Suc n)
  have f: "f < length b" using Suc.prems(1) by simp
  have "b ! (f + 0) \<noteq> None" by (rule Suc.prems(2)) simp
  then have d: "destroy_at b f = Some (b[f := None])" using f by (simp add: destroy_at_live)
  have "\<exists>b'. destroy_n (b[f := None]) (Suc f) n = Some b' \<and> length b' = length (b[f := None]) \<and>
           (\<forall>i<length (b[f := None]). b' ! i = (if Suc f \<le> i \<and> i < Suc f + n then None else (b[f := None]) ! i))"
  proof (rule Suc.IH)
    show "Suc f + n \<le> length (b[f := None])" using Suc.prems(1) by simp
    fix i assume "i < n"
    then have "b ! (f + Suc i) \<noteq> None" by (intro Suc.prems(2)) simp
    then show "b[f := None] ! (Suc f + i) \<noteq> None" by simp
  qed
  then obtain b' where b': "destroy_n (b[f := None]) (Suc f) n = Some b'" "length b' = length b"
    "\<And>i. i < length b \<Longrightarrow> b' ! i = (if Suc f \<le> i \<and> i < Suc f + n then None else (b[f := None]) ! i)"
    by auto
  have "\<forall>i<length b. b' ! i = (if f \<le> i \<and> i < f + Suc n then None else b ! i)"
  proof (intro allI impI)
    fix i assume i: "i < length b"
    show "b' ! i = (if f \<le> i \<and> i < f + Suc n then None else b ! i)"
      using b'(3) [OF i] i by (cases "i = f") auto
  qed
  then show ?case using d b'(1) b'(2) by simp
qed

lemma uvc_returns:
  assumes "value_initialized E = Some z" "f + n \<le> length b"
  shows "\<exists>r. uninitialized_value_construct_n E b f n = Returns () r \<and> length r = length b \<and>
           (\<forall>i<length b. r ! i = (if f \<le> i \<and> i < f + n then Some z else b ! i))"
  using assms(2)
proof (induction n arbitrary: b f)
  case 0
  then show ?case by auto
next
  case (Suc n)
  have f: "f < length b" using Suc.prems by simp
  have "Suc f + n \<le> length (b[f := Some z])" using Suc.prems by simp
  from Suc.IH [OF this] obtain r where r: "uninitialized_value_construct_n E (b[f := Some z]) (Suc f) n = Returns () r"
    "length r = length b"
    "\<And>i. i < length b \<Longrightarrow> r ! i = (if Suc f \<le> i \<and> i < Suc f + n then Some z else (b[f := Some z]) ! i)"
    by auto
  have "\<forall>i<length b. r ! i = (if f \<le> i \<and> i < f + Suc n then Some z else b ! i)"
  proof (intro allI impI)
    fix i assume i: "i < length b"
    show "r ! i = (if f \<le> i \<and> i < f + Suc n then Some z else b ! i)"
      using r(3) [OF i] i by (cases "i = f") auto
  qed
  then show ?case using f r(1) r(2) assms(1) by simp
qed

lemma uvc_throws:
  assumes "value_initialized E = None" "f + n \<le> length b" "n \<noteq> 0"
  shows "uninitialized_value_construct_n E b f n = Throws element_exception b"
  using assms by (cases n) simp_all

lemma read_at_live: "p < length b \<Longrightarrow> b ! p \<noteq> None \<Longrightarrow> read_at b p = Some (the (b ! p))"
  by (auto simp: read_at_def)

lemma ucopy_returns:
  assumes "first + n \<le> length src" "\<And>i. i < n \<Longrightarrow> src ! (first + i) \<noteq> None"
    and "d + n \<le> length dst"
    and "\<And>i. i < n \<Longrightarrow> \<not> copy_ctor_throws E (the (src ! (first + i)))"
  shows "\<exists>r. uninitialized_copy_n E src first n dst d = Returns () (src, r) \<and>
           length r = length dst \<and>
           (\<forall>i<length dst. r ! i = (if d \<le> i \<and> i < d + n then src ! (first + (i - d)) else dst ! i))"
  using assms
proof (induction n arbitrary: first dst d)
  case 0
  then show ?case by auto
next
  case (Suc n)
  have f: "first < length src" and dl: "d < length dst" using Suc.prems(1,3) by simp_all
  have live: "src ! first \<noteq> None" using Suc.prems(2) [of 0] by simp
  then obtain x where x: "src ! first = Some x" by blast
  have rd: "read_at src first = Some x" using f x by (simp add: read_at_def)
  have nt: "\<not> copy_ctor_throws E x" using Suc.prems(4) [of 0] x by simp
  have "\<exists>r. uninitialized_copy_n E src (Suc first) n (dst[d := Some x]) (Suc d) = Returns () (src, r) \<and>
           length r = length (dst[d := Some x]) \<and>
           (\<forall>i<length (dst[d := Some x]). r ! i =
              (if Suc d \<le> i \<and> i < Suc d + n then src ! (Suc first + (i - Suc d)) else (dst[d := Some x]) ! i))"
  proof (rule Suc.IH)
    show "Suc first + n \<le> length src" using Suc.prems(1) by simp
    show "Suc d + n \<le> length (dst[d := Some x])" using Suc.prems(3) by simp
    show "src ! (Suc first + i) \<noteq> None" if "i < n" for i using Suc.prems(2) [of "Suc i"] that by simp
    show "\<not> copy_ctor_throws E (the (src ! (Suc first + i)))" if "i < n" for i
      using Suc.prems(4) [of "Suc i"] that by simp
  qed
  then obtain r where r: "uninitialized_copy_n E src (Suc first) n (dst[d := Some x]) (Suc d) = Returns () (src, r)"
    "length r = length dst"
    "\<And>i. i < length dst \<Longrightarrow> r ! i =
              (if Suc d \<le> i \<and> i < Suc d + n then src ! (Suc first + (i - Suc d)) else (dst[d := Some x]) ! i)"
    by auto
  have "\<forall>i<length dst. r ! i = (if d \<le> i \<and> i < d + Suc n then src ! (first + (i - d)) else dst ! i)"
  proof (intro allI impI)
    fix i assume i: "i < length dst"
    show "r ! i = (if d \<le> i \<and> i < d + Suc n then src ! (first + (i - d)) else dst ! i)"
    proof (cases "i = d")
      case True
      then show ?thesis using r(3) [OF i] i x by simp
    next
      case False
      have "Suc d \<le> i \<Longrightarrow> Suc first + (i - Suc d) = first + (i - d)" by simp
      then show ?thesis using r(3) [OF i] i False by auto
    qed
  qed
  then show ?case using rd dl nt r(1) r(2) by simp
qed

lemma ucopy_throws:
  assumes "first + n \<le> length src" "\<And>i. i < n \<Longrightarrow> src ! (first + i) \<noteq> None"
    and "d + n \<le> length dst"
    and "k < n" "copy_ctor_throws E (the (src ! (first + k)))"
  shows "\<exists>r. uninitialized_copy_n E src first n dst d = Throws element_exception (src, r) \<and>
           length r = length dst \<and>
           (\<forall>i<length dst. r ! i = dst ! i \<or> (d \<le> i \<and> i < d + n \<and> r ! i = None))"
  using assms
proof (induction n arbitrary: first dst d k)
  case 0
  then show ?case by simp
next
  case (Suc n)
  have f: "first < length src" and dl: "d < length dst" using Suc.prems(1,3) by simp_all
  have live: "src ! first \<noteq> None" using Suc.prems(2) [of 0] by simp
  then obtain x where x: "src ! first = Some x" by blast
  have rd: "read_at src first = Some x" using f x by (simp add: read_at_def)
  show ?case
  proof (cases "copy_ctor_throws E x")
    case True
    then show ?thesis using rd dl by simp
  next
    case False
    then have "k \<noteq> 0" using Suc.prems(5) x by (cases k) auto
    then obtain k' where k': "k = Suc k'" by (cases k) auto
    have "\<exists>r. uninitialized_copy_n E src (Suc first) n (dst[d := Some x]) (Suc d) = Throws element_exception (src, r) \<and>
           length r = length (dst[d := Some x]) \<and>
           (\<forall>i<length (dst[d := Some x]). r ! i = (dst[d := Some x]) ! i \<or> (Suc d \<le> i \<and> i < Suc d + n \<and> r ! i = None))"
    proof (rule Suc.IH)
      show "Suc first + n \<le> length src" using Suc.prems(1) by simp
      show "Suc d + n \<le> length (dst[d := Some x])" using Suc.prems(3) by simp
      show "src ! (Suc first + i) \<noteq> None" if "i < n" for i using Suc.prems(2) [of "Suc i"] that by simp
      show "k' < n" using Suc.prems(4) k' by simp
      show "copy_ctor_throws E (the (src ! (Suc first + k')))" using Suc.prems(5) k' by simp
    qed
    then obtain r where r: "uninitialized_copy_n E src (Suc first) n (dst[d := Some x]) (Suc d) = Throws element_exception (src, r)"
      "length r = length dst"
      "\<And>i. i < length dst \<Longrightarrow> r ! i = (dst[d := Some x]) ! i \<or> (Suc d \<le> i \<and> i < Suc d + n \<and> r ! i = None)"
      by auto
    have "r ! d = Some x" using r(3) [OF dl] dl by auto
    then have da: "destroy_at r d = Some (r[d := None])" using dl r(2) by (simp add: destroy_at_live)
    have "\<forall>i<length dst. (r[d := None]) ! i = dst ! i \<or> (d \<le> i \<and> i < d + Suc n \<and> (r[d := None]) ! i = None)"
    proof (intro allI impI)
      fix i assume i: "i < length dst"
      show "(r[d := None]) ! i = dst ! i \<or> (d \<le> i \<and> i < d + Suc n \<and> (r[d := None]) ! i = None)"
        using r(3) [OF i] i r(2) by (cases "i = d") auto
    qed
    then show ?thesis using rd dl False r(1) r(2) da by simp
  qed
qed

lemma umove_returns:
  assumes "first + n \<le> length src" "\<And>i. i < n \<Longrightarrow> src ! (first + i) \<noteq> None"
    and "d + n \<le> length dst"
    and "\<And>i. i < n \<Longrightarrow> \<not> move_ctor_may_throw E (the (src ! (first + i)))"
  shows "\<exists>s r. uninitialized_move_n E src first n dst d = Returns () (s, r) \<and>
           liveness s = liveness src \<and>
           (\<forall>i<length src. \<not> (first \<le> i \<and> i < first + n) \<longrightarrow> s ! i = src ! i) \<and>
           length r = length dst \<and>
           (\<forall>i<length dst. r ! i = (if d \<le> i \<and> i < d + n then src ! (first + (i - d)) else dst ! i))"
  using assms
proof (induction n arbitrary: src first dst d)
  case 0
  then show ?case by auto
next
  case (Suc n)
  have f: "first < length src" and dl: "d < length dst" using Suc.prems(1,3) by simp_all
  have live: "src ! first \<noteq> None" using Suc.prems(2) [of 0] by simp
  then obtain x where x: "src ! first = Some x" by blast
  have rd: "read_at src first = Some x" using f x by (simp add: read_at_def)
  have nt: "\<not> move_ctor_may_throw E x" using Suc.prems(4) [of 0] x by simp
  let ?src = "src[first := Some (moved_from E x)]"
  let ?dst = "dst[d := Some x]"
  have lv: "liveness ?src = liveness src" using live by (simp add: liveness_update_live)
  have "\<exists>s r. uninitialized_move_n E ?src (Suc first) n ?dst (Suc d) = Returns () (s, r) \<and>
           liveness s = liveness ?src \<and>
           (\<forall>i<length ?src. \<not> (Suc first \<le> i \<and> i < Suc first + n) \<longrightarrow> s ! i = ?src ! i) \<and>
           length r = length ?dst \<and>
           (\<forall>i<length ?dst. r ! i =
              (if Suc d \<le> i \<and> i < Suc d + n then ?src ! (Suc first + (i - Suc d)) else ?dst ! i))"
  proof (rule Suc.IH)
    show "Suc first + n \<le> length ?src" using Suc.prems(1) by simp
    show "Suc d + n \<le> length ?dst" using Suc.prems(3) by simp
    show "?src ! (Suc first + i) \<noteq> None" if "i < n" for i using Suc.prems(2) [of "Suc i"] that by simp
    show "\<not> move_ctor_may_throw E (the (?src ! (Suc first + i)))" if "i < n" for i
      using Suc.prems(4) [of "Suc i"] that by simp
  qed
  then obtain s r where r: "uninitialized_move_n E ?src (Suc first) n ?dst (Suc d) = Returns () (s, r)"
    "liveness s = liveness ?src"
    "\<And>i. i < length src \<Longrightarrow> \<not> (Suc first \<le> i \<and> i < Suc first + n) \<Longrightarrow> s ! i = ?src ! i"
    "length r = length dst"
    "\<And>i. i < length dst \<Longrightarrow> r ! i =
              (if Suc d \<le> i \<and> i < Suc d + n then ?src ! (Suc first + (i - Suc d)) else ?dst ! i)"
    by auto
  have a: "\<forall>i<length src. \<not> (first \<le> i \<and> i < first + Suc n) \<longrightarrow> s ! i = src ! i"
  proof (intro allI impI)
    fix i assume i: "i < length src" and o: "\<not> (first \<le> i \<and> i < first + Suc n)"
    then have "i \<noteq> first" by auto
    then show "s ! i = src ! i" using r(3) [OF i] o by auto
  qed
  have b: "\<forall>i<length dst. r ! i = (if d \<le> i \<and> i < d + Suc n then src ! (first + (i - d)) else dst ! i)"
  proof (intro allI impI)
    fix i assume i: "i < length dst"
    show "r ! i = (if d \<le> i \<and> i < d + Suc n then src ! (first + (i - d)) else dst ! i)"
    proof (cases "i = d")
      case True
      then show ?thesis using r(5) [OF i] i x by simp
    next
      case False
      have "Suc d \<le> i \<Longrightarrow> Suc first + (i - Suc d) = first + (i - d)" by simp
      then show ?thesis using r(5) [OF i] i False by auto
    qed
  qed
  show ?case using rd dl nt r(1) r(2) r(4) lv a b by simp
qed

lemma umove_throws:
  assumes "first + n \<le> length src" "\<And>i. i < n \<Longrightarrow> src ! (first + i) \<noteq> None"
    and "d + n \<le> length dst"
    and "k < n" "move_ctor_may_throw E (the (src ! (first + k)))"
  shows "\<exists>s r. uninitialized_move_n E src first n dst d = Throws element_exception (s, r) \<and>
           liveness s = liveness src \<and> length r = length dst \<and>
           (\<forall>i<length dst. r ! i = dst ! i \<or> (d \<le> i \<and> i < d + n \<and> r ! i = None))"
  using assms
proof (induction n arbitrary: src first dst d k)
  case 0
  then show ?case by simp
next
  case (Suc n)
  have f: "first < length src" and dl: "d < length dst" using Suc.prems(1,3) by simp_all
  have live: "src ! first \<noteq> None" using Suc.prems(2) [of 0] by simp
  then obtain x where x: "src ! first = Some x" by blast
  have rd: "read_at src first = Some x" using f x by (simp add: read_at_def)
  let ?src = "src[first := Some (moved_from E x)]"
  let ?dst = "dst[d := Some x]"
  have lv: "liveness ?src = liveness src" using live by (simp add: liveness_update_live)
  show ?case
  proof (cases "move_ctor_may_throw E x")
    case True
    then show ?thesis using rd dl by simp
  next
    case False
    then have "k \<noteq> 0" using Suc.prems(5) x by (cases k) auto
    then obtain k' where k': "k = Suc k'" by (cases k) auto
    have "\<exists>s r. uninitialized_move_n E ?src (Suc first) n ?dst (Suc d) = Throws element_exception (s, r) \<and>
           liveness s = liveness ?src \<and> length r = length ?dst \<and>
           (\<forall>i<length ?dst. r ! i = ?dst ! i \<or> (Suc d \<le> i \<and> i < Suc d + n \<and> r ! i = None))"
    proof (rule Suc.IH)
      show "Suc first + n \<le> length ?src" using Suc.prems(1) by simp
      show "Suc d + n \<le> length ?dst" using Suc.prems(3) by simp
      show "?src ! (Suc first + i) \<noteq> None" if "i < n" for i using Suc.prems(2) [of "Suc i"] that by simp
      show "k' < n" using Suc.prems(4) k' by simp
      show "move_ctor_may_throw E (the (?src ! (Suc first + k')))" using Suc.prems(5) k' by simp
    qed
    then obtain s r where r: "uninitialized_move_n E ?src (Suc first) n ?dst (Suc d) = Throws element_exception (s, r)"
      "liveness s = liveness ?src" "length r = length dst"
      "\<And>i. i < length dst \<Longrightarrow> r ! i = ?dst ! i \<or> (Suc d \<le> i \<and> i < Suc d + n \<and> r ! i = None)"
      by auto
    have "r ! d = Some x" using r(4) [OF dl] dl by auto
    then have da: "destroy_at r d = Some (r[d := None])" using dl r(3) by (simp add: destroy_at_live)
    have "\<forall>i<length dst. (r[d := None]) ! i = dst ! i \<or> (d \<le> i \<and> i < d + Suc n \<and> (r[d := None]) ! i = None)"
    proof (intro allI impI)
      fix i assume i: "i < length dst"
      show "(r[d := None]) ! i = dst ! i \<or> (d \<le> i \<and> i < d + Suc n \<and> (r[d := None]) ! i = None)"
        using r(4) [OF i] i r(3) by (cases "i = d") auto
    qed
    then show ?thesis using rd dl False r(1) r(2) r(3) da lv by simp
  qed
qed

text \<open>Blocks that are too short for what is constructed in them.\<close>

lemma umove_length:
  "uninitialized_move_n E src f n dst d = Returns u (s, r) \<Longrightarrow> length r = length dst"
proof (induction n arbitrary: src f dst d)
  case 0
  then show ?case by simp
next
  case (Suc n)
  from Suc.prems obtain x where x: "read_at src f = Some x" "d < length dst" "\<not> move_ctor_may_throw E x"
    and r: "uninitialized_move_n E (src[f := Some (moved_from E x)]) (Suc f) n (dst[d := Some x]) (Suc d)
              = Returns u (s, r)"
    by (auto split: option.splits if_splits outcome.splits prod.splits)
  from Suc.IH [OF r] show ?case by simp
qed

lemma ucopy_length:
  "uninitialized_copy_n E src f n dst d = Returns u (s, r) \<Longrightarrow> length r = length dst"
proof (induction n arbitrary: src f dst d)
  case 0
  then show ?case by simp
next
  case (Suc n)
  from Suc.prems obtain x where x: "read_at src f = Some x" "d < length dst" "\<not> copy_ctor_throws E x"
    and r: "uninitialized_copy_n E src (Suc f) n (dst[d := Some x]) (Suc d) = Returns u (s, r)"
    by (auto split: option.splits if_splits outcome.splits prod.splits)
  from Suc.IH [OF r] show ?case by simp
qed

lemma umove_bound:
  "uninitialized_move_n E src f n dst d = Returns u sr \<Longrightarrow> 0 < n \<Longrightarrow> d + n \<le> length dst"
proof (induction n arbitrary: src f dst d)
  case 0
  then show ?case by simp
next
  case (Suc n)
  from Suc.prems(1) obtain x where x: "read_at src f = Some x" "d < length dst" "\<not> move_ctor_may_throw E x"
    and r: "uninitialized_move_n E (src[f := Some (moved_from E x)]) (Suc f) n (dst[d := Some x]) (Suc d)
              = Returns u sr"
    by (auto split: option.splits if_splits outcome.splits prod.splits)
  show ?case
  proof (cases "n = 0")
    case True
    then show ?thesis using x(2) by simp
  next
    case False
    then have "0 < n" by simp
    from Suc.IH [OF r this] show ?thesis by simp
  qed
qed

lemma ucopy_bound:
  "uninitialized_copy_n E src f n dst d = Returns u sr \<Longrightarrow> 0 < n \<Longrightarrow> d + n \<le> length dst"
proof (induction n arbitrary: src f dst d)
  case 0
  then show ?case by simp
next
  case (Suc n)
  from Suc.prems(1) obtain x where x: "read_at src f = Some x" "d < length dst" "\<not> copy_ctor_throws E x"
    and r: "uninitialized_copy_n E src (Suc f) n (dst[d := Some x]) (Suc d) = Returns u sr"
    by (auto split: option.splits if_splits outcome.splits prod.splits)
  show ?case
  proof (cases "n = 0")
    case True
    then show ?thesis using x(2) by simp
  next
    case False
    then have "0 < n" by simp
    from Suc.IH [OF r this] show ?thesis by simp
  qed
qed

lemma uvc_short:
  "0 < n \<Longrightarrow> length b < first + n \<Longrightarrow> uninitialized_value_construct_n E b first n \<noteq> Returns u r"
proof (induction n arbitrary: b first)
  case 0
  then show ?case by simp
next
  case (Suc n)
  show ?case
  proof (cases "first < length b")
    case False
    then show ?thesis by simp
  next
    case True
    then have n: "0 < n" "length b < Suc first + n" using Suc.prems by simp_all
    show ?thesis
    proof (cases "value_initialized E")
      case None
      then show ?thesis using True by simp
    next
      case (Some z)
      have "length (b[first := Some z]) < Suc first + n" using n(2) by simp
      from Suc.IH [OF n(1) this]
      show ?thesis using True Some
        by (auto split: outcome.splits option.splits)
    qed
  qed
qed


subsection \<open>Reserving capacity\<close>

lemma transfer_returns:
  assumes "first + n \<le> length src" "\<And>i. i < n \<Longrightarrow> src ! (first + i) \<noteq> None"
    and "d + n \<le> length dst"
    and "\<And>i. i < n \<Longrightarrow> \<not> transfer_throws E (the (src ! (first + i)))"
  shows "\<exists>s r. (if is_nothrow_move_constructible E \<or> \<not> is_copy_constructible E
                then uninitialized_move_n E src first n dst d
                else uninitialized_copy_n E src first n dst d) = Returns () (s, r) \<and>
           liveness s = liveness src \<and>
           (\<forall>i<length src. \<not> (first \<le> i \<and> i < first + n) \<longrightarrow> s ! i = src ! i) \<and>
           length r = length dst \<and>
           (\<forall>i<length dst. r ! i = (if d \<le> i \<and> i < d + n then src ! (first + (i - d)) else dst ! i))"
proof (cases "is_nothrow_move_constructible E \<or> \<not> is_copy_constructible E")
  case True
  have "\<And>i. i < n \<Longrightarrow> \<not> move_ctor_may_throw E (the (src ! (first + i)))"
    using assms(4) True by (simp add: transfer_throws_def)
  from umove_returns [OF assms(1) assms(2) assms(3) this] show ?thesis using True by simp
next
  case False
  have "\<And>i. i < n \<Longrightarrow> \<not> copy_ctor_throws E (the (src ! (first + i)))"
    using assms(4) False by (simp add: transfer_throws_def)
  from ucopy_returns [OF assms(1) assms(2) assms(3) this] show ?thesis using False by auto
qed

lemma transfer_throws:
  assumes "first + n \<le> length src" "\<And>i. i < n \<Longrightarrow> src ! (first + i) \<noteq> None"
    and "d + n \<le> length dst"
    and "k < n" "transfer_throws E (the (src ! (first + k)))"
  shows "\<exists>s r. (if is_nothrow_move_constructible E \<or> \<not> is_copy_constructible E
                then uninitialized_move_n E src first n dst d
                else uninitialized_copy_n E src first n dst d) = Throws element_exception (s, r) \<and>
           liveness s = liveness src \<and>
           (\<not> (is_nothrow_move_constructible E \<or> \<not> is_copy_constructible E) \<longrightarrow> s = src)"
proof (cases "is_nothrow_move_constructible E \<or> \<not> is_copy_constructible E")
  case True
  have "move_ctor_may_throw E (the (src ! (first + k)))"
    using assms(5) True by (simp add: transfer_throws_def)
  from umove_throws [OF assms(1) assms(2) assms(3) assms(4) this] show ?thesis using True by auto
next
  case False
  have "copy_ctor_throws E (the (src ! (first + k)))"
    using assms(5) False by (simp add: transfer_throws_def)
  from ucopy_throws [OF assms(1) assms(2) assms(3) assms(4) this] show ?thesis using False by auto
qed

lemma invariant_liveness:
  assumes "invariant v" "liveness b = liveness (buffer_m (data_m v))"
  shows "invariant (with_buffer v b)"
proof -
  note inv = invariantD [OF assms(1)]
  note lv = liveness_eqD [OF assms(2)]
  show ?thesis
  proof (rule invariantI)
    show "length (buffer_m (data_m (with_buffer v b))) = capacity_m (data_m (with_buffer v b))"
      using lv(1) inv(1) by (simp add: with_buffer_def)
    show "size_m (with_buffer v b) \<le> capacity_m (data_m (with_buffer v b))"
      using inv(2) by (simp add: with_buffer_def)
  next
    fix i assume "i < size_m (with_buffer v b)"
    then have i: "i < size_m v" by (simp add: with_buffer_def)
    then have "i < length (buffer_m (data_m v))" using inv(1) inv(2) by simp
    from lv(2) [OF this] inv(3) [OF i]
    show "buffer_m (data_m (with_buffer v b)) ! i \<noteq> None" by (simp add: with_buffer_def)
  next
    fix i assume "size_m (with_buffer v b) \<le> i" "i < capacity_m (data_m (with_buffer v b))"
    then have i: "size_m v \<le> i" "i < capacity_m (data_m v)" by (simp_all add: with_buffer_def)
    then have "i < length (buffer_m (data_m v))" using inv(1) by simp
    from lv(2) [OF this] inv(4) [OF i]
    show "buffer_m (data_m (with_buffer v b)) ! i = None" by (simp add: with_buffer_def)
  qed
qed

lemma elements_nth:
  assumes "invariant v" "i < size_m v"
  shows "buffer_m (data_m v) ! i = Some (elements v ! i)"
proof -
  note inv = invariantD [OF assms(1)]
  from inv(3) [OF assms(2)] obtain x where "buffer_m (data_m v) ! i = Some x" by blast
  then show ?thesis using assms(2) inv(1) inv(2) by (simp add: elements_def)
qed

lemma elements_length: "invariant v \<Longrightarrow> length (elements v) = size_m v"
  using invariantD(1,2) [of v] by (simp add: elements_def)

text \<open>What a growing transfer produces: the new block with the old elements in front.\<close>

lemma grown_invariant:
  assumes "invariant v" "size_m v \<le> k" "k \<le> c" "length r = c"
    and "\<And>i. i < c \<Longrightarrow> (r ! i \<noteq> None) = (i < k)"
  shows "invariant \<lparr>data_m = \<lparr>buffer_m = r, capacity_m = c\<rparr>, size_m = k\<rparr>"
proof (rule invariantI)
  fix i assume "i < size_m \<lparr>data_m = \<lparr>buffer_m = r, capacity_m = c\<rparr>, size_m = k\<rparr>"
  then have "i < k" by simp
  then show "buffer_m (data_m \<lparr>data_m = \<lparr>buffer_m = r, capacity_m = c\<rparr>, size_m = k\<rparr>) ! i \<noteq> None"
    using assms(5) [of i] assms(3) by simp
next
  fix i assume "size_m \<lparr>data_m = \<lparr>buffer_m = r, capacity_m = c\<rparr>, size_m = k\<rparr> \<le> i"
    "i < capacity_m (data_m \<lparr>data_m = \<lparr>buffer_m = r, capacity_m = c\<rparr>, size_m = k\<rparr>)"
  then have "k \<le> i" "i < c" by simp_all
  then show "buffer_m (data_m \<lparr>data_m = \<lparr>buffer_m = r, capacity_m = c\<rparr>, size_m = k\<rparr>) ! i = None"
    using assms(5) [of i] by simp
qed (use assms in simp_all)

lemma Reserve_cases:
  assumes "invariant v" "fits_size_t E n"
  shows "(n \<le> size_m v \<longrightarrow> Reserve E n v = Returns () v) \<and>
         (size_m v < n \<and> operator_new_throws E n \<longrightarrow> Reserve E n v = Throws bad_alloc v) \<and>
         (size_m v < n \<and> \<not> operator_new_throws E n \<and> (\<exists>k < size_m v. transfer_throws E (elements v ! k)) \<longrightarrow>
            (\<exists>b. Reserve E n v = Throws element_exception (with_buffer v b) \<and>
                 liveness b = liveness (buffer_m (data_m v)))) \<and>
         (size_m v < n \<and> \<not> operator_new_throws E n \<and> (\<forall>k < size_m v. \<not> transfer_throws E (elements v ! k)) \<longrightarrow>
            (\<exists>r. Reserve E n v = Returns () \<lparr>data_m = \<lparr>buffer_m = r, capacity_m = n\<rparr>, size_m = size_m v\<rparr> \<and>
                 length r = n \<and>
                 (\<forall>i<n. r ! i = (if i < size_m v then buffer_m (data_m v) ! i else None))))"
proof -
  note inv = invariantD [OF assms(1)]
  let ?src = "buffer_m (data_m v)"
  have v1: "0 + size_m v \<le> length ?src" using inv(1) inv(2) by simp
  have v2: "\<And>i. i < size_m v \<Longrightarrow> ?src ! (0 + i) \<noteq> None" using inv(3) by auto
  have el: "\<And>i. i < size_m v \<Longrightarrow> the (?src ! (0 + i)) = elements v ! i"
    using elements_nth [OF assms(1)] by simp
  have 1: "n \<le> size_m v \<longrightarrow> Reserve E n v = Returns () v" by (simp add: Reserve_def)
  have 2: "size_m v < n \<and> operator_new_throws E n \<longrightarrow> Reserve E n v = Throws bad_alloc v"
    by (simp add: Reserve_def RawMemory_sized_fits [OF assms(2)])
  have 3: "\<exists>b. Reserve E n v = Throws element_exception (with_buffer v b) \<and>
                 liveness b = liveness (buffer_m (data_m v))"
    if h: "size_m v < n" "\<not> operator_new_throws E n" "\<exists>k < size_m v. transfer_throws E (elements v ! k)"
  proof -
    from h(3) obtain k where k: "k < size_m v" "transfer_throws E (elements v ! k)" by blast
    have v3: "0 + size_m v \<le> length (replicate n (None :: 'a option))" using h(1) by simp
    have "transfer_throws E (the (?src ! (0 + k)))" using k el by simp
    from transfer_throws [OF v1 v2 v3 k(1) this]
    obtain s r where sr: "(if is_nothrow_move_constructible E \<or> \<not> is_copy_constructible E
                then uninitialized_move_n E ?src 0 (size_m v) (replicate n None) 0
                else uninitialized_copy_n E ?src 0 (size_m v) (replicate n None) 0) = Throws element_exception (s, r)"
      "liveness s = liveness ?src" by blast
    have "Reserve E n v = Throws element_exception (with_buffer v s)"
      using h(1) h(2) sr(1)
      by (cases "is_nothrow_move_constructible E \<or> \<not> is_copy_constructible E")
        (simp_all add: Reserve_def RawMemory_sized_fits [OF assms(2)])
    then show ?thesis using sr(2) by blast
  qed
  have 4: "\<exists>r. Reserve E n v = Returns () \<lparr>data_m = \<lparr>buffer_m = r, capacity_m = n\<rparr>, size_m = size_m v\<rparr> \<and>
                 length r = n \<and>
                 (\<forall>i<n. r ! i = (if i < size_m v then buffer_m (data_m v) ! i else None))"
    if h: "size_m v < n" "\<not> operator_new_throws E n" "\<forall>k < size_m v. \<not> transfer_throws E (elements v ! k)"
  proof -
    have v3: "0 + size_m v \<le> length (replicate n (None :: 'a option))" using h(1) by simp
    have "\<And>i. i < size_m v \<Longrightarrow> \<not> transfer_throws E (the (?src ! (0 + i)))" using h(3) el by simp
    from transfer_returns [OF v1 v2 v3 this]
    obtain s r where sr: "(if is_nothrow_move_constructible E \<or> \<not> is_copy_constructible E
                then uninitialized_move_n E ?src 0 (size_m v) (replicate n None) 0
                else uninitialized_copy_n E ?src 0 (size_m v) (replicate n None) 0) = Returns () (s, r)"
      "liveness s = liveness ?src" "length r = n"
      "\<And>i. i < n \<Longrightarrow> r ! i = (if 0 \<le> i \<and> i < 0 + size_m v then ?src ! (0 + (i - 0)) else replicate n None ! i)"
      by auto
    note ls = liveness_eqD [OF sr(2)]
    have "0 + size_m v \<le> length s" using ls(1) v1 by simp
    moreover have "\<And>i. i < size_m v \<Longrightarrow> s ! (0 + i) \<noteq> None"
      using ls(2) v2 v1 by simp
    ultimately obtain s' where s': "destroy_n s 0 (size_m v) = Some s'"
      using destroy_n_live [of 0 "size_m v" s] by blast
    have "Reserve E n v = Returns () \<lparr>data_m = \<lparr>buffer_m = r, capacity_m = n\<rparr>, size_m = size_m v\<rparr>"
      using h(1) h(2) sr(1) s'
      by (cases "is_nothrow_move_constructible E \<or> \<not> is_copy_constructible E")
        (simp_all add: Reserve_def RawMemory_sized_fits [OF assms(2)])
    moreover have "\<forall>i<n. r ! i = (if i < size_m v then ?src ! i else None)"
      using sr(4) by simp
    ultimately show ?thesis using sr(3) by blast
  qed
  show ?thesis using 1 2 3 4 by blast
qed

lemma elements_eq_prefix:
  assumes "invariant v" "size_m v \<le> length r" "\<And>i. i < size_m v \<Longrightarrow> r ! i = buffer_m (data_m v) ! i"
  shows "map the (take (size_m v) r) = elements v"
proof -
  note inv = invariantD [OF assms(1)]
  have "take (size_m v) r = take (size_m v) (buffer_m (data_m v))"
    using assms(2) assms(3) inv(1) inv(2) by (intro nth_take_lemma) simp_all
  then show ?thesis by (simp add: elements_def)
qed

lemma never_throws_transfer: "never_throws E \<Longrightarrow> \<not> transfer_throws E x"
  by (simp add: never_throws_def transfer_throws_def)

lemma Reserve_returns:
  assumes "invariant v" "Reserve E n v = Returns u v'" "fits_size_t E n"
  shows "invariant v' \<and> size_m v' = size_m v \<and> elements v' = elements v \<and>
         Capacity v' = (if n \<le> size_m v then Capacity v else n) \<and> n \<le> Capacity v'"
proof -
  note inv = invariantD [OF assms(1)]
  note c = Reserve_cases [OF assms(1) assms(3)]
  consider (a) "n \<le> size_m v" | (b) "size_m v < n" "operator_new_throws E n"
    | (c) "size_m v < n" "\<not> operator_new_throws E n" "\<exists>k < size_m v. transfer_throws E (elements v ! k)"
    | (d) "size_m v < n" "\<not> operator_new_throws E n" "\<forall>k < size_m v. \<not> transfer_throws E (elements v ! k)"
    using not_le by blast
  then show ?thesis
  proof cases
    case a
    then have "v' = v" using c assms(2) by simp
    then show ?thesis using a assms(1) inv(2) by (simp add: Capacity_def)
  next
    case b
    then show ?thesis using c assms(2) by simp
  next
    case c1: c
    then show ?thesis using c assms(2) by auto
  next
    case d
    then obtain r where r: "Reserve E n v = Returns () \<lparr>data_m = \<lparr>buffer_m = r, capacity_m = n\<rparr>, size_m = size_m v\<rparr>"
      "length r = n" "\<And>i. i < n \<Longrightarrow> r ! i = (if i < size_m v then buffer_m (data_m v) ! i else None)"
      using c by blast
    have v': "v' = \<lparr>data_m = \<lparr>buffer_m = r, capacity_m = n\<rparr>, size_m = size_m v\<rparr>"
      using r(1) assms(2) by simp
    have i1: "invariant \<lparr>data_m = \<lparr>buffer_m = r, capacity_m = n\<rparr>, size_m = size_m v\<rparr>"
    proof (rule grown_invariant [OF assms(1)])
      fix i assume i: "i < n"
      show "(r ! i \<noteq> None) = (i < size_m v)"
        using r(3) [OF i] inv(3) [of i] by auto
    qed (use d(1) r(2) in simp_all)
    have "map the (take (size_m v) r) = elements v"
      using d(1) r(2) r(3) by (intro elements_eq_prefix [OF assms(1)]) simp_all
    then have i2: "elements v' = elements v" by (simp add: v' elements_def)
    show ?thesis using i1 i2 d(1) by (simp add: v' Capacity_def)
  qed
qed

lemma Reserve_throws:
  assumes "invariant v" "Reserve E n v = Throws e v'" "fits_size_t E n"
  shows "invariant v' \<and> size_m v' = size_m v \<and> Capacity v' = Capacity v"
proof -
  note c = Reserve_cases [OF assms(1) assms(3)]
  consider (a) "n \<le> size_m v" | (b) "size_m v < n" "operator_new_throws E n"
    | (c) "size_m v < n" "\<not> operator_new_throws E n" "\<exists>k < size_m v. transfer_throws E (elements v ! k)"
    | (d) "size_m v < n" "\<not> operator_new_throws E n" "\<forall>k < size_m v. \<not> transfer_throws E (elements v ! k)"
    using not_le by blast
  then show ?thesis
  proof cases
    case a
    then show ?thesis using c assms(2) by simp
  next
    case b
    then have "v' = v" using c assms(2) by simp
    then show ?thesis using assms(1) by simp
  next
    case c1: c
    then obtain b where b: "Reserve E n v = Throws element_exception (with_buffer v b)"
      "liveness b = liveness (buffer_m (data_m v))" using c by blast
    have "v' = with_buffer v b" using b(1) assms(2) by simp
    then show ?thesis using invariant_liveness [OF assms(1) b(2)] by (simp add: with_buffer_def Capacity_def)
  next
    case d
    then show ?thesis using c assms(2) by auto
  qed
qed

lemma Reserve_defined:
  assumes "invariant v" "fits_size_t E n"
  shows "Reserve E n v \<noteq> Undefined"
proof -
  note c = Reserve_cases [OF assms(1) assms(2)]
  consider (a) "n \<le> size_m v" | (b) "size_m v < n" "operator_new_throws E n"
    | (c) "size_m v < n" "\<not> operator_new_throws E n" "\<exists>k < size_m v. transfer_throws E (elements v ! k)"
    | (d) "size_m v < n" "\<not> operator_new_throws E n" "\<forall>k < size_m v. \<not> transfer_throws E (elements v ! k)"
    using not_le by blast
  then show ?thesis
  proof cases
    case a then show ?thesis using c by simp
  next
    case b then show ?thesis using c by simp
  next
    case c1: c then show ?thesis using c by auto
  next
    case d then show ?thesis using c by auto
  qed
qed

lemma Reserve_total:
  assumes "invariant v" "never_throws E" "fits_size_t E n"
  shows "\<exists>v'. Reserve E n v = Returns () v'"
proof (cases "n \<le> size_m v")
  case True
  then show ?thesis using Reserve_cases [OF assms(1) assms(3)] by simp
next
  case False
  have "\<not> operator_new_throws E n" using assms(2) by (simp add: never_throws_def)
  moreover have "\<forall>k < size_m v. \<not> transfer_throws E (elements v ! k)"
    using never_throws_transfer [OF assms(2)] by simp
  ultimately show ?thesis using False Reserve_cases [OF assms(1) assms(3)] by auto
qed

subsection \<open>Appending an element\<close>

lemma PushBack_EmplaceBack:
  assumes "length (buffer_m (data_m v)) = capacity_m (data_m v)"
  shows "PushBack E a v =
           (case EmplaceBack E a v of
              Returns r s \<Rightarrow> Returns () s
            | Throws e s \<Rightarrow> Throws e s
            | Undefined \<Rightarrow> Undefined)"
proof (cases "size_m v = Capacity v")
  case True
  let ?nc = "if size_m v = 0 then 1 else size_m v * 2"
  have lt: "size_m v < ?nc" by simp
  show ?thesis
  proof (cases "RawMemory_sized E ?nc")
    case (Inl e)
    then show ?thesis using True by (simp add: PushBack_def EmplaceBack_def Let_def)
  next
    case (Inr nd)
    then have cap: "capacity_m nd = ?nc" by (rule RawMemory_sized_capacity)
    have idx: "RawMemory_index (nd\<lparr>buffer_m := b\<rparr>) (size_m v) = Some (size_m v)" for b
      using cap lt by (simp add: RawMemory_index_def)
    show ?thesis using True Inr idx
      by (simp add: PushBack_def EmplaceBack_def Let_def
          split: option.splits outcome.splits prod.splits)
  qed
next
  case False
  have "RawMemory_index (data_m (with_buffer v b)) (size_m v) = Some (size_m v)"
    if "construct_at (buffer_m (data_m v)) (size_m v) x = Some b" for b x
    using that assms by (auto simp: construct_at_def RawMemory_index_def with_buffer_def split: if_splits)
  then show ?thesis using False
    by (auto simp: PushBack_def EmplaceBack_def RawMemory_plus_def split: option.splits)
qed

lemma EmplaceBack_growing_unfold:
  assumes "size_m v = Capacity v" "nc = (if size_m v = 0 then 1 else size_m v * 2)"
    and "fits_size_t E nc" "\<not> operator_new_throws E nc"
  shows "EmplaceBack E a v =
     (case a of
        None \<Rightarrow> Throws element_exception v
      | Some x \<Rightarrow>
         (case (if is_nothrow_move_constructible E \<or> \<not> is_copy_constructible E
                then uninitialized_move_n E (buffer_m (data_m v)) 0 (size_m v) ((replicate nc None)[size_m v := Some x]) 0
                else uninitialized_copy_n E (buffer_m (data_m v)) 0 (size_m v) ((replicate nc None)[size_m v := Some x]) 0) of
            Undefined \<Rightarrow> Undefined
          | Throws e (ob, nb') \<Rightarrow> Throws e (with_buffer v ob)
          | Returns u (ob, nb') \<Rightarrow>
              (case destroy_n ob 0 (size_m v) of
                 None \<Rightarrow> Undefined
               | Some ob' \<Rightarrow>
                   Returns (size_m v)
                     \<lparr>data_m = \<lparr>buffer_m = nb', capacity_m = nc\<rparr>, size_m = size_m v + 1\<rparr>)))"
proof -
  have lt: "size_m v < nc" and nz: "nc \<noteq> 0" using assms(2) by simp_all
  have g: "(size_m v = Capacity v) = True" using assms(1) by simp
  have rs: "RawMemory_sized E nc = Inr \<lparr>buffer_m = replicate nc None, capacity_m = nc\<rparr>"
    using assms(4) nz by (simp add: RawMemory_sized_fits [OF assms(3)])
  have pl: "RawMemory_plus \<lparr>buffer_m = replicate nc None, capacity_m = nc\<rparr> (size_m v) = Some (size_m v)"
    using lt by (simp add: RawMemory_plus_def)
  have ca: "construct_at (replicate nc None) (size_m v) y = Some ((replicate nc None)[size_m v := Some y])" for y :: 'a
    using lt by (simp add: construct_at_def)
  have idx: "RawMemory_index \<lparr>buffer_m = b, capacity_m = nc\<rparr> (size_m v) = Some (size_m v)" for b :: "'a buffer"
    using lt by (simp add: RawMemory_index_def)
  have "EmplaceBack E a v =
     (case RawMemory_sized E nc of
           Inl e \<Rightarrow> Throws e v
         | Inr new_data \<Rightarrow>
             (case RawMemory_plus new_data (size_m v) of
                None \<Rightarrow> Undefined
              | Some p \<Rightarrow>
                  (case a of
                     None \<Rightarrow> Throws element_exception v
                   | Some x \<Rightarrow>
                       (case construct_at (buffer_m new_data) p x of
                          None \<Rightarrow> Undefined
                        | Some nb \<Rightarrow>
                            (case (if is_nothrow_move_constructible E \<or> \<not> is_copy_constructible E
                                   then uninitialized_move_n E (buffer_m (data_m v)) 0 (size_m v) nb 0
                                   else uninitialized_copy_n E (buffer_m (data_m v)) 0 (size_m v) nb 0) of
                               Undefined \<Rightarrow> Undefined
                             | Throws e (ob, nb') \<Rightarrow> Throws e (with_buffer v ob)
                             | Returns u (ob, nb') \<Rightarrow>
                                 (case destroy_n ob 0 (size_m v) of
                                    None \<Rightarrow> Undefined
                                  | Some ob' \<Rightarrow>
                                      (case RawMemory_index (new_data\<lparr>buffer_m := nb'\<rparr>) (size_m v) of
                                         None \<Rightarrow> Undefined
                                       | Some r \<Rightarrow>
                                           Returns r
                                             \<lparr>data_m = new_data\<lparr>buffer_m := nb'\<rparr>,
                                              size_m = size_m v + 1\<rparr>)))))))"
    by (simp only: EmplaceBack_def Let_def assms(2) [symmetric] g if_True)
  also have "\<dots> = (case a of
        None \<Rightarrow> Throws element_exception v
      | Some x \<Rightarrow>
         (case (if is_nothrow_move_constructible E \<or> \<not> is_copy_constructible E
                then uninitialized_move_n E (buffer_m (data_m v)) 0 (size_m v) ((replicate nc None)[size_m v := Some x]) 0
                else uninitialized_copy_n E (buffer_m (data_m v)) 0 (size_m v) ((replicate nc None)[size_m v := Some x]) 0) of
            Undefined \<Rightarrow> Undefined
          | Throws e (ob, nb') \<Rightarrow> Throws e (with_buffer v ob)
          | Returns u (ob, nb') \<Rightarrow>
              (case destroy_n ob 0 (size_m v) of
                 None \<Rightarrow> Undefined
               | Some ob' \<Rightarrow>
                   Returns (size_m v)
                     \<lparr>data_m = \<lparr>buffer_m = nb', capacity_m = nc\<rparr>, size_m = size_m v + 1\<rparr>)))"
    by (cases "is_nothrow_move_constructible E \<or> \<not> is_copy_constructible E")
      (simp_all add: rs pl ca idx split: option.splits outcome.splits prod.splits)
  finally show ?thesis .
qed

lemma EmplaceBack_growing:
  assumes "invariant v" "size_m v = Capacity v" "nc = (if size_m v = 0 then 1 else size_m v * 2)"
    and "fits_size_t E nc"
  shows "(operator_new_throws E nc \<longrightarrow> EmplaceBack E a v = Throws bad_alloc v) \<and>
         (\<not> operator_new_throws E nc \<and> a = None \<longrightarrow> EmplaceBack E a v = Throws element_exception v) \<and>
         (\<not> operator_new_throws E nc \<and> a = Some x \<and>
          (\<exists>k < size_m v. transfer_throws E (elements v ! k)) \<longrightarrow>
            (\<exists>b. EmplaceBack E a v = Throws element_exception (with_buffer v b) \<and>
                 liveness b = liveness (buffer_m (data_m v)))) \<and>
         (\<not> operator_new_throws E nc \<and> a = Some x \<and>
          (\<forall>k < size_m v. \<not> transfer_throws E (elements v ! k)) \<longrightarrow>
            (\<exists>r. EmplaceBack E a v =
                   Returns (size_m v) \<lparr>data_m = \<lparr>buffer_m = r, capacity_m = nc\<rparr>, size_m = size_m v + 1\<rparr> \<and>
                 length r = nc \<and>
                 (\<forall>i<nc. r ! i = (if i < size_m v then buffer_m (data_m v) ! i
                                  else if i = size_m v then Some x else None))))"
proof -
  note inv = invariantD [OF assms(1)]
  let ?src = "buffer_m (data_m v)"
  let ?nb = "(replicate nc (None :: 'a option))[size_m v := Some x]"
  have lt: "size_m v < nc" and nz: "nc \<noteq> 0" using assms(3) by simp_all
  have v1: "0 + size_m v \<le> length ?src" using inv(1) inv(2) by simp
  have v2: "\<And>i. i < size_m v \<Longrightarrow> ?src ! (0 + i) \<noteq> None" using inv(3) by auto
  have v3: "0 + size_m v \<le> length ?nb" using lt by simp
  have el: "\<And>i. i < size_m v \<Longrightarrow> the (?src ! (0 + i)) = elements v ! i"
    using elements_nth [OF assms(1)] by simp
  note head = EmplaceBack_growing_unfold [OF assms(2) assms(3) assms(4)]
  have g: "(size_m v = Capacity v) = True" using assms(2) by simp
  have 1: "operator_new_throws E nc \<longrightarrow> EmplaceBack E a v = Throws bad_alloc v"
    using nz by (simp only: EmplaceBack_def Let_def assms(3) [symmetric] g if_True)
      (simp add: RawMemory_sized_fits [OF assms(4)])
  have 2: "\<not> operator_new_throws E nc \<and> a = None \<longrightarrow> EmplaceBack E a v = Throws element_exception v"
    using head by simp
  have 3: "\<exists>b. EmplaceBack E a v = Throws element_exception (with_buffer v b) \<and> liveness b = liveness ?src"
    if h: "\<not> operator_new_throws E nc" "a = Some x" "\<exists>k < size_m v. transfer_throws E (elements v ! k)"
  proof -
    from h(3) obtain k where k: "k < size_m v" "transfer_throws E (elements v ! k)" by blast
    have "transfer_throws E (the (?src ! (0 + k)))" using k el by simp
    from transfer_throws [OF v1 v2 v3 k(1) this]
    obtain s r where sr: "(if is_nothrow_move_constructible E \<or> \<not> is_copy_constructible E
                then uninitialized_move_n E ?src 0 (size_m v) ?nb 0
                else uninitialized_copy_n E ?src 0 (size_m v) ?nb 0) = Throws element_exception (s, r)"
      "liveness s = liveness ?src" by blast
    have "EmplaceBack E a v = Throws element_exception (with_buffer v s)"
      unfolding head [OF h(1)] h(2) option.case sr(1) by simp
    then show ?thesis using sr(2) by blast
  qed
  have 4: "\<exists>r. EmplaceBack E a v =
                   Returns (size_m v) \<lparr>data_m = \<lparr>buffer_m = r, capacity_m = nc\<rparr>, size_m = size_m v + 1\<rparr> \<and>
                 length r = nc \<and>
                 (\<forall>i<nc. r ! i = (if i < size_m v then ?src ! i else if i = size_m v then Some x else None))"
    if h: "\<not> operator_new_throws E nc" "a = Some x" "\<forall>k < size_m v. \<not> transfer_throws E (elements v ! k)"
  proof -
    have "\<And>i. i < size_m v \<Longrightarrow> \<not> transfer_throws E (the (?src ! (0 + i)))" using h(3) el by simp
    from transfer_returns [OF v1 v2 v3 this]
    obtain s r where sr: "(if is_nothrow_move_constructible E \<or> \<not> is_copy_constructible E
                then uninitialized_move_n E ?src 0 (size_m v) ?nb 0
                else uninitialized_copy_n E ?src 0 (size_m v) ?nb 0) = Returns () (s, r)"
      "liveness s = liveness ?src" "length r = length ?nb"
      "\<And>i. i < length ?nb \<Longrightarrow> r ! i = (if 0 \<le> i \<and> i < 0 + size_m v then ?src ! (0 + (i - 0)) else ?nb ! i)"
      by auto
    note ls = liveness_eqD [OF sr(2)]
    have "0 + size_m v \<le> length s" using ls(1) v1 by simp
    moreover have "\<And>i. i < size_m v \<Longrightarrow> s ! (0 + i) \<noteq> None"
      using ls(2) v2 v1 by simp
    ultimately obtain s' where s': "destroy_n s 0 (size_m v) = Some s'"
      using destroy_n_live [of 0 "size_m v" s] by blast
    have a: "EmplaceBack E a v =
                   Returns (size_m v) \<lparr>data_m = \<lparr>buffer_m = r, capacity_m = nc\<rparr>, size_m = size_m v + 1\<rparr>"
      unfolding head [OF h(1)] h(2) option.case sr(1) using s' by simp
    have len: "length r = nc" using sr(3) by simp
    have "\<forall>i<nc. r ! i = (if i < size_m v then ?src ! i else if i = size_m v then Some x else None)"
    proof (intro allI impI)
      fix i assume i': "i < nc"
      then have i: "i < length ?nb" by simp
      show "r ! i = (if i < size_m v then ?src ! i else if i = size_m v then Some x else None)"
        using sr(4) [OF i] i' by (auto simp: nth_list_update)
    qed
    then show ?thesis using a len by blast
  qed
  show ?thesis using 1 2 3 4 by blast
qed

text \<open>A growing append whose request does not fit \<^verbatim>\<open>size_t\<close>: the new block is too short
  for the new element.\<close>

lemma EmplaceBack_overflow:
  assumes "size_m v = Capacity v" "nc = (if size_m v = 0 then 1 else size_m v * 2)"
    and "\<not> fits_size_t E nc"
  shows "EmplaceBack E a v =
           (if operator_new_throws E nc then Throws bad_alloc v
            else case a of None \<Rightarrow> Throws element_exception v | Some x \<Rightarrow> Undefined)"
proof -
  have nz: "size_m v \<noteq> 0" using assms(2) assms(3) fits_size_t_1(1) [of E] by (cases "size_m v = 0") auto
  then have nc: "nc = size_m v * 2" using assms(2) by simp
  have g: "(size_m v = Capacity v) = True" using assms(1) by simp
  have rs: "RawMemory_sized E nc =
      (if operator_new_throws E nc then Inl bad_alloc
       else Inr \<lparr>buffer_m = replicate (allocated_slots E nc) None, capacity_m = nc\<rparr>)"
    using nz nc by (simp add: RawMemory_sized_eq)
  have short: "allocated_slots E nc \<le> size_m v"
    using allocated_slots_doubling [of E "size_m v"] assms(3) nc by simp
  have pl: "RawMemory_plus \<lparr>buffer_m = b, capacity_m = nc\<rparr> (size_m v) = Some (size_m v)" for b :: "'a buffer"
    using nc by (simp add: RawMemory_plus_def)
  have ca: "construct_at (replicate (allocated_slots E nc) None) (size_m v) y = None" for y :: 'a
    using short by (simp add: construct_at_def)
  have "EmplaceBack E a v =
     (case RawMemory_sized E nc of
           Inl e \<Rightarrow> Throws e v
         | Inr new_data \<Rightarrow>
             (case RawMemory_plus new_data (size_m v) of
                None \<Rightarrow> Undefined
              | Some p \<Rightarrow>
                  (case a of
                     None \<Rightarrow> Throws element_exception v
                   | Some x \<Rightarrow>
                       (case construct_at (buffer_m new_data) p x of
                          None \<Rightarrow> Undefined
                        | Some nb \<Rightarrow>
                            (case (if is_nothrow_move_constructible E \<or> \<not> is_copy_constructible E
                                   then uninitialized_move_n E (buffer_m (data_m v)) 0 (size_m v) nb 0
                                   else uninitialized_copy_n E (buffer_m (data_m v)) 0 (size_m v) nb 0) of
                               Undefined \<Rightarrow> Undefined
                             | Throws e (ob, nb') \<Rightarrow> Throws e (with_buffer v ob)
                             | Returns u (ob, nb') \<Rightarrow>
                                 (case destroy_n ob 0 (size_m v) of
                                    None \<Rightarrow> Undefined
                                  | Some ob' \<Rightarrow>
                                      (case RawMemory_index (new_data\<lparr>buffer_m := nb'\<rparr>) (size_m v) of
                                         None \<Rightarrow> Undefined
                                       | Some r \<Rightarrow>
                                           Returns r
                                             \<lparr>data_m = new_data\<lparr>buffer_m := nb'\<rparr>,
                                              size_m = size_m v + 1\<rparr>)))))))"
    by (simp only: EmplaceBack_def Let_def assms(2) [symmetric] g if_True)
  also have "\<dots> = (if operator_new_throws E nc then Throws bad_alloc v
            else case a of None \<Rightarrow> Throws element_exception v | Some x \<Rightarrow> Undefined)"
    by (simp add: rs pl ca split: option.splits)
  finally show ?thesis .
qed

lemma EmplaceBack_in_place:
  assumes "invariant v" "size_m v \<noteq> Capacity v"
  shows "EmplaceBack E a v =
           (case a of
              None \<Rightarrow> Throws element_exception v
            | Some x \<Rightarrow>
                Returns (size_m v)
                  ((with_buffer v ((buffer_m (data_m v))[size_m v := Some x]))\<lparr>size_m := size_m v + 1\<rparr>))"
proof -
  note inv = invariantD [OF assms(1)]
  have lt: "size_m v < capacity_m (data_m v)" using inv(2) assms(2) by (simp add: Capacity_def)
  show ?thesis using assms(2) lt inv(1)
    by (simp add: EmplaceBack_def RawMemory_plus_def construct_at_def RawMemory_index_def with_buffer_def
        split: option.splits)
qed

lemma with_buffer_eq:
  "with_buffer v b = \<lparr>data_m = \<lparr>buffer_m = b, capacity_m = capacity_m (data_m v)\<rparr>, size_m = size_m v\<rparr>"
  by (simp add: with_buffer_def)

lemma inserted_state:
  assumes "invariant v" "p \<le> size_m v" "size_m v < c" "length r = c"
    and "\<And>i. i < c \<Longrightarrow> r ! i = (if i < p then buffer_m (data_m v) ! i
                                 else if i = p then Some x
                                 else if i \<le> size_m v then buffer_m (data_m v) ! (i - 1) else None)"
  shows "invariant \<lparr>data_m = \<lparr>buffer_m = r, capacity_m = c\<rparr>, size_m = size_m v + 1\<rparr>"
    and "elements \<lparr>data_m = \<lparr>buffer_m = r, capacity_m = c\<rparr>, size_m = size_m v + 1\<rparr>
           = take p (elements v) @ [x] @ drop p (elements v)"
proof -
  note inv = invariantD [OF assms(1)]
  note len = elements_length [OF assms(1)]
  show "invariant \<lparr>data_m = \<lparr>buffer_m = r, capacity_m = c\<rparr>, size_m = size_m v + 1\<rparr>"
  proof (rule grown_invariant [OF assms(1)])
    fix i assume i: "i < c"
    show "(r ! i \<noteq> None) = (i < size_m v + 1)"
    proof (cases "i < p")
      case True
      then have "i < size_m v" using assms(2) by simp
      from inv(3) [OF this] show ?thesis using assms(5) [OF i] True assms(2) by auto
    next
      case False
      show ?thesis
      proof (cases "i = p")
        case True
        then show ?thesis using assms(5) [OF i] assms(2) by simp
      next
        case ne: False
        show ?thesis
        proof (cases "i \<le> size_m v")
          case True
          then have "i - 1 < size_m v" using False ne by simp
          from inv(3) [OF this] show ?thesis using assms(5) [OF i] False ne True by auto
        next
          case gt: False
          then show ?thesis using assms(5) [OF i] False ne by simp
        qed
      qed
    qed
  qed (use assms in simp_all)
  show "elements \<lparr>data_m = \<lparr>buffer_m = r, capacity_m = c\<rparr>, size_m = size_m v + 1\<rparr>
           = take p (elements v) @ [x] @ drop p (elements v)"
  proof (rule nth_equalityI)
    show l: "length (elements \<lparr>data_m = \<lparr>buffer_m = r, capacity_m = c\<rparr>, size_m = size_m v + 1\<rparr>)
            = length (take p (elements v) @ [x] @ drop p (elements v))"
      using assms(2) assms(3) assms(4) len by (simp add: elements_def)
    fix i assume "i < length (elements \<lparr>data_m = \<lparr>buffer_m = r, capacity_m = c\<rparr>, size_m = size_m v + 1\<rparr>)"
    then have i: "i < size_m v + 1" using assms(3) assms(4) by (simp add: elements_def)
    then have ic: "i < c" using assms(3) by simp
    have lhs: "elements \<lparr>data_m = \<lparr>buffer_m = r, capacity_m = c\<rparr>, size_m = size_m v + 1\<rparr> ! i = the (r ! i)"
      using i ic assms(4) by (simp add: elements_def)
    show "elements \<lparr>data_m = \<lparr>buffer_m = r, capacity_m = c\<rparr>, size_m = size_m v + 1\<rparr> ! i
            = (take p (elements v) @ [x] @ drop p (elements v)) ! i"
    proof (cases "i < p")
      case True
      then have "i < size_m v" using assms(2) by simp
      from elements_nth [OF assms(1) this] show ?thesis
        using lhs assms(5) [OF ic] True assms(2) len by (simp add: nth_append)
    next
      case False
      show ?thesis
      proof (cases "i = p")
        case True
        then show ?thesis using lhs assms(5) [OF ic] assms(2) len by (simp add: nth_append)
      next
        case ne: False
        then have gt: "p < i" using False by simp
        then have i1: "i - 1 < size_m v" using i by simp
        have "(take p (elements v) @ [x] @ drop p (elements v)) ! i = drop p (elements v) ! (i - p - 1)"
          using gt assms(2) len by (simp add: nth_append)
        also have "\<dots> = elements v ! (i - 1)" using gt assms(2) len i1 by simp
        finally show ?thesis
          using lhs assms(5) [OF ic] False ne i elements_nth [OF assms(1) i1] by simp
      qed
    qed
  qed
qed

lemma EmplaceBack_returns:
  assumes "invariant v" "EmplaceBack E a v = Returns p v'"
  shows "\<exists>x. a = Some x \<and> p = size_m v \<and> invariant v' \<and> size_m v' = size_m v + 1 \<and>
             elements v' = elements v @ [x] \<and>
             Capacity v' = (if size_m v = Capacity v then (if size_m v = 0 then 1 else size_m v * 2)
                            else Capacity v)"
proof (cases "size_m v = Capacity v")
  case True
  define nc where "nc = (if size_m v = 0 then 1 else size_m v * 2)"
  have lt: "size_m v < nc" by (simp add: nc_def)
  have fit: "fits_size_t E nc"
  proof (rule ccontr)
    assume "\<not> fits_size_t E nc"
    from EmplaceBack_overflow [OF True nc_def this, of a] assms(2) show False
      by (auto split: if_splits option.splits)
  qed
  note c = EmplaceBack_growing [OF assms(1) True nc_def fit, of a]
  have nt: "\<not> operator_new_throws E nc" using c assms(2) by auto
  then obtain x where x: "a = Some x" using c assms(2) by (cases a) auto
  have "\<not> (\<exists>k < size_m v. transfer_throws E (elements v ! k))"
    using c [of x] nt x assms(2) by auto
  then obtain r where r: "EmplaceBack E a v =
       Returns (size_m v) \<lparr>data_m = \<lparr>buffer_m = r, capacity_m = nc\<rparr>, size_m = size_m v + 1\<rparr>"
     "length r = nc"
     "\<And>i. i < nc \<Longrightarrow> r ! i = (if i < size_m v then buffer_m (data_m v) ! i
                                else if i = size_m v then Some x else None)"
    using c [of x] nt x by auto
  have v': "v' = \<lparr>data_m = \<lparr>buffer_m = r, capacity_m = nc\<rparr>, size_m = size_m v + 1\<rparr>" and p: "p = size_m v"
    using r(1) assms(2) by simp_all
  have ins: "\<And>i. i < nc \<Longrightarrow> r ! i = (if i < size_m v then buffer_m (data_m v) ! i
                                 else if i = size_m v then Some x
                                 else if i \<le> size_m v then buffer_m (data_m v) ! (i - 1) else None)"
    using r(3) by simp
  note st = inserted_state [OF assms(1) le_refl lt r(2) ins]
  have "elements v' = elements v @ [x]"
    using st(2) elements_length [OF assms(1)] by (simp add: v')
  then show ?thesis using st(1) x p True by (simp add: v' Capacity_def nc_def)
next
  case False
  note inv = invariantD [OF assms(1)]
  have lt: "size_m v < capacity_m (data_m v)" using inv(2) False by (simp add: Capacity_def)
  note c = EmplaceBack_in_place [OF assms(1) False, of E a]
  obtain x where x: "a = Some x" using c assms(2) by (cases a) auto
  let ?r = "(buffer_m (data_m v))[size_m v := Some x]"
  have v': "v' = \<lparr>data_m = \<lparr>buffer_m = ?r, capacity_m = capacity_m (data_m v)\<rparr>, size_m = size_m v + 1\<rparr>"
    and p: "p = size_m v"
    using c x assms(2) by (auto simp: with_buffer_eq)
  have ins: "\<And>i. i < capacity_m (data_m v) \<Longrightarrow> ?r ! i = (if i < size_m v then buffer_m (data_m v) ! i
                                 else if i = size_m v then Some x
                                 else if i \<le> size_m v then buffer_m (data_m v) ! (i - 1) else None)"
    using inv(1) inv(4) by (auto simp: nth_list_update)
  have lr: "length ?r = capacity_m (data_m v)" using inv(1) by simp
  note st = inserted_state [OF assms(1) le_refl lt lr ins]
  have "elements v' = elements v @ [x]"
    using st(2) elements_length [OF assms(1)] by (simp add: v')
  then show ?thesis using st(1) x p False by (simp add: v' Capacity_def)
qed

lemma EmplaceBack_throws:
  assumes "invariant v" "EmplaceBack E a v = Throws e v'"
  shows "invariant v' \<and> size_m v' = size_m v \<and> Capacity v' = Capacity v"
proof (cases "size_m v = Capacity v")
  case True
  define nc where "nc = (if size_m v = 0 then 1 else size_m v * 2)"
  show ?thesis
  proof (cases "fits_size_t E nc")
    case nf: False
    from EmplaceBack_overflow [OF True nc_def this, of a] assms(2) have "v' = v"
      by (auto split: if_splits option.splits)
    then show ?thesis using assms(1) by simp
  next
  case fit: True
  note c = EmplaceBack_growing [OF assms(1) True nc_def fit, of a]
  show ?thesis
  proof (cases "operator_new_throws E nc")
    case True
    then have "v' = v" using c assms(2) by simp
    then show ?thesis using assms(1) by simp
  next
    case nt: False
    show ?thesis
    proof (cases a)
      case None
      then have "v' = v" using c nt assms(2) by simp
      then show ?thesis using assms(1) by simp
    next
      case (Some x)
      show ?thesis
      proof (cases "\<exists>k < size_m v. transfer_throws E (elements v ! k)")
        case True
        then obtain b where b: "EmplaceBack E a v = Throws element_exception (with_buffer v b)"
          "liveness b = liveness (buffer_m (data_m v))" using c [of x] nt Some by blast
        have "v' = with_buffer v b" using b(1) assms(2) by simp
        then show ?thesis using invariant_liveness [OF assms(1) b(2)]
          by (simp add: with_buffer_def Capacity_def)
      next
        case False
        then show ?thesis using c [of x] nt Some assms(2) by auto
      qed
    qed
  qed
  qed
next
  case False
  note c = EmplaceBack_in_place [OF assms(1) False, of E a]
  have "v' = v" using c assms(2) by (cases a) simp_all
  then show ?thesis using assms(1) by simp
qed

lemma EmplaceBack_defined:
  assumes "invariant v" "size_m v = Capacity v \<Longrightarrow> fits_size_t E (size_m v * 2)"
  shows "EmplaceBack E a v \<noteq> Undefined"
proof (cases "size_m v = Capacity v")
  case True
  define nc where "nc = (if size_m v = 0 then 1 else size_m v * 2)"
  have fit: "fits_size_t E nc" using assms(2) [OF True] fits_size_t_1(1) [of E] by (simp add: nc_def)
  note c = EmplaceBack_growing [OF assms(1) True nc_def fit, of a]
  show ?thesis
  proof (cases "operator_new_throws E nc")
    case True
    then show ?thesis using c by simp
  next
    case nt: False
    show ?thesis
    proof (cases a)
      case None
      then show ?thesis using c nt by simp
    next
      case (Some x)
      show ?thesis
        using c [of x] nt Some by (cases "\<exists>k < size_m v. transfer_throws E (elements v ! k)") auto
    qed
  qed
next
  case False
  show ?thesis using EmplaceBack_in_place [OF assms(1) False, of E a] by (cases a) simp_all
qed

lemma EmplaceBack_total:
  assumes "invariant v" "never_throws E" "size_m v = Capacity v \<Longrightarrow> fits_size_t E (size_m v * 2)"
  shows "\<exists>v'. EmplaceBack E (Some x) v = Returns (size_m v) v'"
proof (cases "size_m v = Capacity v")
  case True
  define nc where "nc = (if size_m v = 0 then 1 else size_m v * 2)"
  have fit: "fits_size_t E nc" using assms(3) [OF True] fits_size_t_1(1) [of E] by (simp add: nc_def)
  note c = EmplaceBack_growing [OF assms(1) True nc_def fit, of "Some x" x]
  have "\<not> operator_new_throws E nc" using assms(2) by (simp add: never_throws_def)
  moreover have "\<forall>k < size_m v. \<not> transfer_throws E (elements v ! k)"
    using never_throws_transfer [OF assms(2)] by simp
  ultimately show ?thesis using c by auto
next
  case False
  show ?thesis using EmplaceBack_in_place [OF assms(1) False, of E "Some x"] by simp
qed

lemma PushBack_returns:
  assumes "invariant v" "PushBack E a v = Returns u v'"
  shows "\<exists>x. a = Some x \<and> invariant v' \<and> size_m v' = size_m v + 1 \<and>
             elements v' = elements v @ [x] \<and>
             Capacity v' = (if size_m v = Capacity v then (if size_m v = 0 then 1 else size_m v * 2)
                            else Capacity v)"
proof -
  note pe = PushBack_EmplaceBack [OF invariantD(1) [OF assms(1)], of E a]
  from pe assms(2) obtain p where "EmplaceBack E a v = Returns p v'"
    by (cases "EmplaceBack E a v") simp_all
  from EmplaceBack_returns [OF assms(1) this] show ?thesis by blast
qed

lemma PushBack_throws:
  assumes "invariant v" "PushBack E a v = Throws e v'"
  shows "invariant v' \<and> size_m v' = size_m v \<and> Capacity v' = Capacity v"
proof -
  note pe = PushBack_EmplaceBack [OF invariantD(1) [OF assms(1)], of E a]
  from pe assms(2) have "EmplaceBack E a v = Throws e v'"
    by (cases "EmplaceBack E a v") simp_all
  from EmplaceBack_throws [OF assms(1) this] show ?thesis .
qed

lemma PushBack_defined:
  assumes "invariant v" "size_m v = Capacity v \<Longrightarrow> fits_size_t E (size_m v * 2)"
  shows "PushBack E a v \<noteq> Undefined"
  using PushBack_EmplaceBack [OF invariantD(1) [OF assms(1)], of E a] EmplaceBack_defined [OF assms, of a]
  by (cases "EmplaceBack E a v") simp_all

lemma PushBack_total:
  assumes "invariant v" "never_throws E" "size_m v = Capacity v \<Longrightarrow> fits_size_t E (size_m v * 2)"
  shows "\<exists>v'. PushBack E (Some x) v = Returns () v'"
  using PushBack_EmplaceBack [OF invariantD(1) [OF assms(1)], of E "Some x"]
    EmplaceBack_total [OF assms, of x] by auto

subsection \<open>The capacity under repeated appends\<close>

lemma PushBack_capacity:
  assumes "PushBack E a v = Returns u v' \<or> PushBack E a v = Throws e v'"
  shows "Capacity v \<le> Capacity v'"
    and "PushBack E a v = Returns u v' \<Longrightarrow> size_m v = Capacity v \<Longrightarrow> Capacity v' = max 1 (2 * size_m v)"
  using assms
  by (auto simp: PushBack_def RawMemory_sized_eq Let_def Capacity_def with_buffer_def
      split: if_splits option.splits outcome.splits sum.splits prod.splits)

lemma EmplaceBack_capacity:
  assumes "EmplaceBack E a v = Returns p v' \<or> EmplaceBack E a v = Throws e v'"
  shows "Capacity v \<le> Capacity v'"
    and "EmplaceBack E a v = Returns p v' \<Longrightarrow> size_m v = Capacity v \<Longrightarrow> Capacity v' = max 1 (2 * size_m v)"
  using assms
  by (auto simp: EmplaceBack_def RawMemory_sized_eq Let_def Capacity_def with_buffer_def
      split: if_splits option.splits outcome.splits sum.splits prod.splits)

lemma doubling_step:
  assumes "(s = 0 \<and> c = 0) \<or> (\<exists>k. c = 2 ^ k \<and> s \<le> 2 ^ k \<and> 2 ^ k < 2 * s)"
    and "c' = (if s = c then (if s = 0 then 1 else s * 2) else c)"
  shows "\<exists>k. c' = (2::nat) ^ k \<and> s + 1 \<le> 2 ^ k \<and> 2 ^ k < 2 * (s + 1)"
proof (cases "s = c")
  case True
  show ?thesis
  proof (cases "s = 0")
    case z: True
    then have "c' = 2 ^ 0" using assms(2) True by simp
    then show ?thesis using z by (intro exI [of _ 0]) simp
  next
    case False
    then obtain k where k: "c = 2 ^ k" using assms(1) by auto
    have "c' = 2 ^ Suc k" using assms(2) True False k by simp
    moreover have "s + 1 \<le> 2 ^ Suc k" using True k by simp
    moreover have "(2::nat) ^ Suc k < 2 * (s + 1)" using True k by simp
    ultimately show ?thesis by blast
  qed
next
  case False
  then obtain k where k: "c = 2 ^ k" "s \<le> 2 ^ k" "2 ^ k < 2 * s" using assms(1) by auto
  have "c' = 2 ^ k" using assms(2) False k by simp
  moreover have "s + 1 \<le> 2 ^ k" using False k by simp
  moreover have "(2::nat) ^ k < 2 * (s + 1)" using k by simp
  ultimately show ?thesis by blast
qed

lemma appends_returns:
  assumes "appends E xs v = Some w" "invariant v"
    and "(size_m v = 0 \<and> Capacity v = 0) \<or> (\<exists>k. Capacity v = 2 ^ k \<and> size_m v \<le> 2 ^ k \<and> 2 ^ k < 2 * size_m v)"
  shows "invariant w \<and> size_m w = size_m v + length xs \<and> elements w = elements v @ map snd xs \<and>
         ((size_m w = 0 \<and> Capacity w = 0) \<or> (\<exists>k. Capacity w = 2 ^ k \<and> size_m w \<le> 2 ^ k \<and> 2 ^ k < 2 * size_m w))"
  using assms
proof (induction xs arbitrary: v)
  case Nil
  then show ?case by simp
next
  case (Cons ex xs)
  obtain emplace x where ex: "ex = (emplace, x)" by (cases ex)
  have "\<exists>v'. appends E xs v' = Some w \<and> invariant v' \<and> size_m v' = size_m v + 1 \<and>
             elements v' = elements v @ [x] \<and>
             Capacity v' = (if size_m v = Capacity v then (if size_m v = 0 then 1 else size_m v * 2)
                            else Capacity v)"
  proof (cases emplace)
    case True
    then obtain p v' where v': "EmplaceBack E (Some x) v = Returns p v'" "appends E xs v' = Some w"
      using Cons.prems(1) ex by (cases "EmplaceBack E (Some x) v") simp_all
    from EmplaceBack_returns [OF Cons.prems(2) v'(1)] v'(2) show ?thesis by auto
  next
    case False
    then obtain u v' where v': "PushBack E (Some x) v = Returns u v'" "appends E xs v' = Some w"
      using Cons.prems(1) ex by (cases "PushBack E (Some x) v") simp_all
    from PushBack_returns [OF Cons.prems(2) v'(1)] v'(2) show ?thesis by auto
  qed
  then obtain v' where v': "appends E xs v' = Some w" "invariant v'" "size_m v' = size_m v + 1"
    "elements v' = elements v @ [x]"
    "Capacity v' = (if size_m v = Capacity v then (if size_m v = 0 then 1 else size_m v * 2)
                            else Capacity v)" by blast
  from doubling_step [OF Cons.prems(3) v'(5)]
  have "\<exists>k. Capacity v' = 2 ^ k \<and> size_m v' \<le> 2 ^ k \<and> 2 ^ k < 2 * size_m v'"
    using v'(3) by simp
  then have "(size_m v' = 0 \<and> Capacity v' = 0) \<or> (\<exists>k. Capacity v' = 2 ^ k \<and> size_m v' \<le> 2 ^ k \<and> 2 ^ k < 2 * size_m v')"
    by blast
  from Cons.IH [OF v'(1) v'(2) this]
  have r: "invariant w" "size_m w = size_m v' + length xs" "elements w = elements v' @ map snd xs"
    "(size_m w = 0 \<and> Capacity w = 0) \<or> (\<exists>k. Capacity w = 2 ^ k \<and> size_m w \<le> 2 ^ k \<and> 2 ^ k < 2 * size_m w)"
    by blast+
  have "size_m w = size_m v + length (ex # xs)" using r(2) v'(3) by simp
  moreover have "elements w = elements v @ map snd (ex # xs)" using r(3) v'(4) ex by simp
  ultimately show ?case using r(1) r(4) by blast
qed

lemma appends_total:
  assumes "never_throws E" "invariant v" "fits_size_t E (2 * (size_m v + length xs))"
  shows "\<exists>w. appends E xs v = Some w"
  using assms(2) assms(3)
proof (induction xs arbitrary: v)
  case Nil
  then show ?case by simp
next
  case (Cons ex xs)
  obtain emplace x where ex: "ex = (emplace, x)" by (cases ex)
  have fit: "fits_size_t E (size_m v * 2)"
    using Cons.prems(2) by (elim fits_size_t_mono [rotated]) simp
  show ?case
  proof (cases emplace)
    case True
    from EmplaceBack_total [OF Cons.prems(1) assms(1) fit, of x] obtain v' where
      v': "EmplaceBack E (Some x) v = Returns (size_m v) v'" by blast
    from EmplaceBack_returns [OF Cons.prems(1) v']
    have i: "invariant v'" and s: "size_m v' = size_m v + 1" by blast+
    have "fits_size_t E (2 * (size_m v' + length xs))" using Cons.prems(2) s by simp
    from Cons.IH [OF i this] show ?thesis using v' ex True by simp
  next
    case False
    from PushBack_total [OF Cons.prems(1) assms(1) fit, of x] obtain v' where
      v': "PushBack E (Some x) v = Returns () v'" by blast
    from PushBack_returns [OF Cons.prems(1) v']
    have i: "invariant v'" and s: "size_m v' = size_m v + 1" by blast+
    have "fits_size_t E (2 * (size_m v' + length xs))" using Cons.prems(2) s by simp
    from Cons.IH [OF i this] show ?thesis using v' ex False by simp
  qed
qed

lemma Capacity_default: "size_m (Vector_default :: 'a Vector) = 0" "Capacity (Vector_default :: 'a Vector) = 0"
  "elements (Vector_default :: 'a Vector) = []"
  by (simp_all add: Vector_default_def RawMemory_default_def Capacity_def elements_def)

lemma never_throws_int: "never_throws int_type"
  by (simp add: never_throws_def int_type_def nothrow_type_def move_ctor_may_throw_def)

text \<open>
  Claim C4. An append (\<^verbatim>\<open>PushBack\<close> or \<^verbatim>\<open>EmplaceBack\<close>) that finds the size equal to the
  capacity and returns leaves the capacity \<open>max 1 (2 * size)\<close>, where \<open>size\<close> is the size
  before the call; no append, returning or throwing, decreases the capacity. Starting
  from the default-constructed vector (capacity 0), after \<open>n > 0\<close> appends that return
  the capacity is the power of two \<open>2 ^ k\<close> with \<open>n \<le> 2 ^ k < 2 * n\<close>, so the capacities
  that occur are 1, 2, 4, 8, ...; the size is \<open>n\<close> and the elements are the appended
  values in order. When no operation of the element type throws, no allocation fails
  and the byte count of twice as many objects as there are appends is below \<open>2 ^ 64\<close>,
  every such sequence of appends returns.
\<close>

theorem append_capacity_doubles:
  "(size_m v = Capacity v \<and> PushBack E a v = Returns u v1 \<longrightarrow> Capacity v1 = max 1 (2 * size_m v)) \<and>
   (size_m v = Capacity v \<and> EmplaceBack E a v = Returns p v2 \<longrightarrow> Capacity v2 = max 1 (2 * size_m v)) \<and>
   (PushBack E a v = Returns u v1 \<or> PushBack E a v = Throws e v1 \<longrightarrow> Capacity v \<le> Capacity v1) \<and>
   (EmplaceBack E a v = Returns p v2 \<or> EmplaceBack E a v = Throws e v2 \<longrightarrow> Capacity v \<le> Capacity v2) \<and>
   (appends E xs Vector_default = Some w \<longrightarrow>
      size_m w = length xs \<and> elements w = map snd xs \<and>
      (xs = [] \<longrightarrow> Capacity w = 0) \<and>
      (xs \<noteq> [] \<longrightarrow> (\<exists>k. Capacity w = 2 ^ k \<and> length xs \<le> 2 ^ k \<and> 2 ^ k < 2 * length xs))) \<and>
   (never_throws E \<and> fits_size_t E (2 * length xs) \<longrightarrow>
      (\<exists>w'. appends E xs Vector_default = Some w'))"
proof -
  have 5: "size_m w = length xs \<and> elements w = map snd xs \<and>
      (xs = [] \<longrightarrow> Capacity w = 0) \<and>
      (xs \<noteq> [] \<longrightarrow> (\<exists>k. Capacity w = 2 ^ k \<and> length xs \<le> 2 ^ k \<and> 2 ^ k < 2 * length xs))"
    if h: "appends E xs Vector_default = Some w"
  proof -
    have "(size_m (Vector_default :: 'a Vector) = 0 \<and> Capacity (Vector_default :: 'a Vector) = 0) \<or>
          (\<exists>k. Capacity (Vector_default :: 'a Vector) = 2 ^ k \<and> size_m (Vector_default :: 'a Vector) \<le> 2 ^ k \<and>
               2 ^ k < 2 * size_m (Vector_default :: 'a Vector))"
      by (simp add: Capacity_default)
    from appends_returns [OF h invariant_default this]
    have q: "size_m w = size_m (Vector_default :: 'a Vector) + length xs"
      "elements w = elements (Vector_default :: 'a Vector) @ map snd xs"
      and D: "(size_m w = 0 \<and> Capacity w = 0) \<or> (\<exists>k. Capacity w = 2 ^ k \<and> size_m w \<le> 2 ^ k \<and> 2 ^ k < 2 * size_m w)"
      by blast+
    have s: "size_m w = length xs" using q(1) by (simp add: Capacity_default)
    have e: "elements w = map snd xs" using q(2) by (simp add: Capacity_default)
    have z: "Capacity w = 0" if "xs = []"
    proof -
      have "size_m w = 0" using s that by simp
      then show ?thesis using D by auto
    qed
    have n: "\<exists>k. Capacity w = 2 ^ k \<and> length xs \<le> 2 ^ k \<and> 2 ^ k < 2 * length xs" if "xs \<noteq> []"
    proof -
      have nz: "size_m w \<noteq> 0" using s that by simp
      from D have "\<exists>k. Capacity w = 2 ^ k \<and> size_m w \<le> 2 ^ k \<and> 2 ^ k < 2 * size_m w"
      proof (elim disjE)
        assume "size_m w = 0 \<and> Capacity w = 0"
        with nz show ?thesis by simp
      next
        assume "\<exists>k. Capacity w = 2 ^ k \<and> size_m w \<le> 2 ^ k \<and> 2 ^ k < 2 * size_m w"
        then show ?thesis .
      qed
      then show ?thesis unfolding s .
    qed
    show ?thesis using s e z n by blast
  qed
  have 6: "\<exists>w'. appends E xs Vector_default = Some w'"
    if h: "never_throws E" "fits_size_t E (2 * length xs)"
  proof -
    have "fits_size_t E (2 * (size_m (Vector_default :: 'a Vector) + length xs))"
      using h(2) by (simp add: Capacity_default)
    from appends_total [OF h(1) invariant_default this] show ?thesis .
  qed
  show ?thesis
    using PushBack_capacity [of E a v u v1 e] EmplaceBack_capacity [of E a v p v2 e] 5 6
    by blast
qed

theorem append_capacity_doubles_witness:
  "appends int_type [(False, 1), (True, 2), (False, 3), (False, 4), (True, 5)] Vector_default =
     Some \<lparr>data_m = \<lparr>buffer_m = [Some 1, Some 2, Some 3, Some 4, Some 5, None, None, None],
                     capacity_m = 8\<rparr>, size_m = 5\<rparr> \<and>
   never_throws int_type \<and>
   fits_size_t int_type (2 * length [(False, 1::int), (True, 2), (False, 3), (False, 4), (True, 5)]) \<and>
   size_m vec_1 = Capacity vec_1 \<and>
   PushBack int_type (Some 7) vec_1 =
     Returns () \<lparr>data_m = \<lparr>buffer_m = [Some 1, Some 7], capacity_m = 2\<rparr>, size_m = 2\<rparr> \<and>
   EmplaceBack int_type (Some 7) vec_1 =
     Returns 1 \<lparr>data_m = \<lparr>buffer_m = [Some 1, Some 7], capacity_m = 2\<rparr>, size_m = 2\<rparr>"
proof -
  have a: "appends int_type [(False, 1), (True, 2), (False, 3), (False, 4), (True, 5)] Vector_default =
     Some \<lparr>data_m = \<lparr>buffer_m = [Some 1, Some 2, Some 3, Some 4, Some 5, None, None, None],
                     capacity_m = 8\<rparr>, size_m = 5\<rparr>"
    by code_simp
  have b: "size_m vec_1 = Capacity vec_1" by code_simp
  have f: "fits_size_t int_type (2 * length [(False, 1::int), (True, 2), (False, 3), (False, 4), (True, 5)])"
    by code_simp
  have c: "PushBack int_type (Some 7) vec_1 =
     Returns () \<lparr>data_m = \<lparr>buffer_m = [Some 1, Some 7], capacity_m = 2\<rparr>, size_m = 2\<rparr>"
    by code_simp
  have d: "EmplaceBack int_type (Some 7) vec_1 =
     Returns 1 \<lparr>data_m = \<lparr>buffer_m = [Some 1, Some 7], capacity_m = 2\<rparr>, size_m = 2\<rparr>"
    by code_simp
  show ?thesis
    using a b c d f never_throws_int
      append_capacity_doubles [of vec_1 int_type "Some 7" "()"
        "\<lparr>data_m = \<lparr>buffer_m = [Some 1, Some 7], capacity_m = 2\<rparr>, size_m = 2\<rparr>" 1
        "\<lparr>data_m = \<lparr>buffer_m = [Some 1, Some 7], capacity_m = 2\<rparr>, size_m = 2\<rparr>"
        bad_alloc "[(False, 1), (True, 2), (False, 3), (False, 4), (True, 5)]"
        "\<lparr>data_m = \<lparr>buffer_m = [Some 1, Some 2, Some 3, Some 4, Some 5, None, None, None],
                     capacity_m = 8\<rparr>, size_m = 5\<rparr>"]
    by simp
qed

subsection \<open>\<^verbatim>\<open>Resize\<close>\<close>

lemma Reserve_growing_returns:
  assumes "invariant v" "size_m v < n" "Reserve E n v = Returns u v1" "fits_size_t E n"
  shows "\<exists>r. v1 = \<lparr>data_m = \<lparr>buffer_m = r, capacity_m = n\<rparr>, size_m = size_m v\<rparr> \<and> length r = n \<and>
              (\<forall>i<n. r ! i = (if i < size_m v then buffer_m (data_m v) ! i else None))"
proof -
  note c = Reserve_cases [OF assms(1) assms(4)]
  have nt: "\<not> operator_new_throws E n" using c assms(2) assms(3) by auto
  have "\<not> (\<exists>k < size_m v. transfer_throws E (elements v ! k))" using c nt assms(2) assms(3) by auto
  then show ?thesis using c nt assms(2) assms(3) by auto
qed

lemma Resize_shrinking:
  assumes "invariant v" "k \<le> size_m v"
  shows "\<exists>b. Resize E k v = Returns () ((with_buffer v b)\<lparr>size_m := k\<rparr>) \<and>
             length b = length (buffer_m (data_m v)) \<and>
             (\<forall>i<length b. b ! i = (if k \<le> i \<and> i < size_m v then None else buffer_m (data_m v) ! i))"
proof -
  note inv = invariantD [OF assms(1)]
  have "k + (size_m v - k) \<le> length (buffer_m (data_m v))" using assms(2) inv(1) inv(2) by simp
  moreover have "\<And>i. i < size_m v - k \<Longrightarrow> buffer_m (data_m v) ! (k + i) \<noteq> None"
    using inv(3) by (metis less_diff_conv add.commute option.distinct(1))
  ultimately obtain b where b: "destroy_n (buffer_m (data_m v)) k (size_m v - k) = Some b"
    "length b = length (buffer_m (data_m v))"
    "\<And>i. i < length (buffer_m (data_m v)) \<Longrightarrow>
        b ! i = (if k \<le> i \<and> i < k + (size_m v - k) then None else buffer_m (data_m v) ! i)"
    using destroy_n_live [of k "size_m v - k" "buffer_m (data_m v)"] by blast
  have pl: "RawMemory_plus (data_m v) k = Some k" using assms(2) inv(2) by (simp add: RawMemory_plus_def)
  have "Resize E k v = Returns () ((with_buffer v b)\<lparr>size_m := k\<rparr>)"
    using assms(2) pl b(1) by (simp add: Resize_def)
  moreover have "\<forall>i<length b. b ! i = (if k \<le> i \<and> i < size_m v then None else buffer_m (data_m v) ! i)"
    using b(2) b(3) assms(2) by simp
  ultimately show ?thesis using b(2) by blast
qed

lemma shrunk_state:
  assumes "invariant v" "k \<le> size_m v" "length b = length (buffer_m (data_m v))"
    and "\<And>i. i < length b \<Longrightarrow> b ! i = (if k \<le> i \<and> i < size_m v then None else buffer_m (data_m v) ! i)"
  shows "invariant ((with_buffer v b)\<lparr>size_m := k\<rparr>)"
    and "elements ((with_buffer v b)\<lparr>size_m := k\<rparr>) = take k (elements v)"
proof -
  note inv = invariantD [OF assms(1)]
  show "invariant ((with_buffer v b)\<lparr>size_m := k\<rparr>)"
  proof (rule invariantI)
    fix i assume "i < size_m ((with_buffer v b)\<lparr>size_m := k\<rparr>)"
    then have i: "i < k" by simp
    then have "i < size_m v" "i < length b" using assms(2) assms(3) inv(1) inv(2) by simp_all
    then show "buffer_m (data_m ((with_buffer v b)\<lparr>size_m := k\<rparr>)) ! i \<noteq> None"
      using assms(4) [of i] inv(3) [of i] i by (auto simp: with_buffer_def)
  next
    fix i assume "size_m ((with_buffer v b)\<lparr>size_m := k\<rparr>) \<le> i"
      "i < capacity_m (data_m ((with_buffer v b)\<lparr>size_m := k\<rparr>))"
    then have i: "k \<le> i" "i < capacity_m (data_m v)" by (simp_all add: with_buffer_def)
    then have "i < length b" using assms(3) inv(1) by simp
    then show "buffer_m (data_m ((with_buffer v b)\<lparr>size_m := k\<rparr>)) ! i = None"
      using assms(4) [of i] inv(4) [of i] i by (auto simp: with_buffer_def)
  qed (use assms(2) assms(3) inv(1) inv(2) in \<open>simp_all add: with_buffer_def\<close>)
  have 1: "take k b = take k (buffer_m (data_m v))"
    using assms(2) assms(3) assms(4) inv(1) inv(2) by (intro nth_take_lemma) simp_all
  have 2: "take k (take (size_m v) (buffer_m (data_m v))) = take k (buffer_m (data_m v))"
    using assms(2) by (simp add: min_def)
  have "elements ((with_buffer v b)\<lparr>size_m := k\<rparr>) = map the (take k b)"
    by (simp add: elements_def with_buffer_def)
  also have "\<dots> = map the (take k (take (size_m v) (buffer_m (data_m v))))"
    by (simp only: 1 2)
  also have "\<dots> = take k (elements v)"
    by (simp only: elements_def take_map)
  finally show "elements ((with_buffer v b)\<lparr>size_m := k\<rparr>) = take k (elements v)" .
qed

lemma filled_state:
  assumes "invariant v" "size_m v \<le> k" "length r = k"
    and "\<And>i. i < k \<Longrightarrow> r ! i = (if i < size_m v then buffer_m (data_m v) ! i else Some z)"
  shows "invariant \<lparr>data_m = \<lparr>buffer_m = r, capacity_m = k\<rparr>, size_m = k\<rparr>"
    and "elements \<lparr>data_m = \<lparr>buffer_m = r, capacity_m = k\<rparr>, size_m = k\<rparr>
           = elements v @ replicate (k - size_m v) z"
proof -
  note inv = invariantD [OF assms(1)]
  note len = elements_length [OF assms(1)]
  show "invariant \<lparr>data_m = \<lparr>buffer_m = r, capacity_m = k\<rparr>, size_m = k\<rparr>"
  proof (rule grown_invariant [OF assms(1) assms(2) le_refl assms(3)])
    fix i assume i: "i < k"
    show "(r ! i \<noteq> None) = (i < k)"
      using assms(4) [OF i] inv(3) [of i] i by auto
  qed
  show "elements \<lparr>data_m = \<lparr>buffer_m = r, capacity_m = k\<rparr>, size_m = k\<rparr>
           = elements v @ replicate (k - size_m v) z"
  proof (rule nth_equalityI)
    show "length (elements \<lparr>data_m = \<lparr>buffer_m = r, capacity_m = k\<rparr>, size_m = k\<rparr>)
            = length (elements v @ replicate (k - size_m v) z)"
      using assms(2) assms(3) len by (simp add: elements_def)
    fix i assume "i < length (elements \<lparr>data_m = \<lparr>buffer_m = r, capacity_m = k\<rparr>, size_m = k\<rparr>)"
    then have i: "i < k" using assms(3) by (simp add: elements_def)
    have lhs: "elements \<lparr>data_m = \<lparr>buffer_m = r, capacity_m = k\<rparr>, size_m = k\<rparr> ! i = the (r ! i)"
      using i assms(3) by (simp add: elements_def)
    show "elements \<lparr>data_m = \<lparr>buffer_m = r, capacity_m = k\<rparr>, size_m = k\<rparr> ! i
            = (elements v @ replicate (k - size_m v) z) ! i"
    proof (cases "i < size_m v")
      case True
      from elements_nth [OF assms(1) True] show ?thesis
        using lhs assms(4) [OF i] True len by (simp add: nth_append)
    next
      case False
      then show ?thesis using lhs assms(4) [OF i] i len by (simp add: nth_append)
    qed
  qed
qed

lemma Reserve_growing_length:
  assumes "size_m v < n" "Reserve E n v = Returns u v1"
  shows "length (buffer_m (data_m v1)) = allocated_slots E n \<and> capacity_m (data_m v1) = n \<and>
         size_m v1 = size_m v"
proof -
  let ?nb = "replicate (allocated_slots E n) (None :: 'a option)"
  have nz: "n \<noteq> 0" using assms(1) by simp
  have g: "\<not> n \<le> size_m v" using assms(1) by simp
  show ?thesis
  proof (cases "is_nothrow_move_constructible E \<or> \<not> is_copy_constructible E")
    case True
    then have "\<exists>s r. uninitialized_move_n E (buffer_m (data_m v)) 0 (size_m v) ?nb 0 = Returns () (s, r) \<and>
       v1 = \<lparr>data_m = \<lparr>buffer_m = r, capacity_m = n\<rparr>, size_m = size_m v\<rparr>"
      using assms(2) g nz
      by (auto simp: Reserve_def RawMemory_sized_eq split: if_splits outcome.splits option.splits prod.splits)
    then show ?thesis using umove_length by fastforce
  next
    case False
    then have "\<exists>s r. uninitialized_copy_n E (buffer_m (data_m v)) 0 (size_m v) ?nb 0 = Returns () (s, r) \<and>
       v1 = \<lparr>data_m = \<lparr>buffer_m = r, capacity_m = n\<rparr>, size_m = size_m v\<rparr>"
      using assms(2) g nz
      by (auto simp: Reserve_def RawMemory_sized_eq split: if_splits outcome.splits option.splits prod.splits)
    then show ?thesis using ucopy_length by fastforce
  qed
qed

lemma Resize_growing_fits:
  assumes "size_m v < k" "Resize E k v = Returns u v'"
  shows "fits_size_t E k"
proof (rule ccontr)
  assume nf: "\<not> fits_size_t E k"
  from assms obtain u1 v1 where r: "Reserve E k v = Returns u1 v1"
    by (cases "Reserve E k v") (simp_all add: Resize_def)
  note l = Reserve_growing_length [OF assms(1) r]
  have "0 < k - size_m v" using assms(1) by simp
  moreover have "length (buffer_m (data_m v1)) < size_m v + (k - size_m v)"
    using l allocated_slots_overflow [OF nf] assms(1) by simp
  ultimately have "uninitialized_value_construct_n E (buffer_m (data_m v1)) (size_m v) (k - size_m v) \<noteq> Returns u' b" for u' b
    by (rule uvc_short)
  then show False using assms r l
    by (auto simp: Resize_def RawMemory_plus_def split: option.splits outcome.splits)
qed

lemma Resize_growing:
  assumes "invariant v" "size_m v < k" "fits_size_t E k"
  shows "(Resize E k v = Returns u v' \<longrightarrow>
            (\<exists>z. value_initialized E = Some z \<and> invariant v' \<and> size_m v' = k \<and> Capacity v' = k \<and>
                 elements v' = elements v @ replicate (k - size_m v) z)) \<and>
         (Resize E k v = Throws e v' \<longrightarrow> invariant v' \<and> size_m v' = size_m v) \<and>
         Resize E k v \<noteq> Undefined \<and>
         (never_throws E \<longrightarrow> (\<exists>w. Resize E k v = Returns () w))"
proof (cases "Reserve E k v")
  case Undefined
  then show ?thesis using Reserve_defined [OF assms(1) assms(3)] by simp
next
  case (Throws e1 v1)
  have "Resize E k v = Throws e1 v1" using assms(2) Throws by (simp add: Resize_def)
  moreover have "\<not> never_throws E" using Reserve_total [OF assms(1) _ assms(3)] Throws by auto
  ultimately show ?thesis using Reserve_throws [OF assms(1) Throws assms(3)] by auto
next
  case (Returns u1 v1)
  from Reserve_growing_returns [OF assms(1) assms(2) Returns assms(3)]
  obtain r where r: "v1 = \<lparr>data_m = \<lparr>buffer_m = r, capacity_m = k\<rparr>, size_m = size_m v\<rparr>" "length r = k"
    "\<And>i. i < k \<Longrightarrow> r ! i = (if i < size_m v then buffer_m (data_m v) ! i else None)" by blast
  have i1: "invariant v1" using Reserve_returns [OF assms(1) Returns assms(3)] by simp
  have pl: "RawMemory_plus (data_m v1) (size_m v1) = Some (size_m v)"
    using assms(2) by (simp add: r(1) RawMemory_plus_def)
  have head: "Resize E k v =
     (case uninitialized_value_construct_n E r (size_m v) (k - size_m v) of
        Undefined \<Rightarrow> Undefined
      | Throws e b \<Rightarrow> Throws e (with_buffer v1 b)
      | Returns u' b \<Rightarrow> Returns () ((with_buffer v1 b)\<lparr>size_m := k\<rparr>))"
    using assms(2) Returns pl unfolding r(1) by (simp add: Resize_def)
  have bound: "size_m v + (k - size_m v) \<le> length r" using assms(2) r(2) by simp
  show ?thesis
  proof (cases "value_initialized E")
    case None
    have "k - size_m v \<noteq> 0" using assms(2) by simp
    from uvc_throws [OF None bound this]
    have "Resize E k v = Throws element_exception v1"
      using head by (simp add: with_buffer_def r(1))
    moreover have "\<not> never_throws E" using None by (simp add: never_throws_def)
    ultimately show ?thesis using i1 by (auto simp: r(1))
  next
    case (Some z)
    from uvc_returns [OF Some bound]
    obtain b where b: "uninitialized_value_construct_n E r (size_m v) (k - size_m v) = Returns () b"
      "length b = k"
      "\<And>i. i < k \<Longrightarrow> b ! i = (if size_m v \<le> i \<and> i < size_m v + (k - size_m v) then Some z else r ! i)"
      using r(2) by auto
    have res: "Resize E k v = Returns () \<lparr>data_m = \<lparr>buffer_m = b, capacity_m = k\<rparr>, size_m = k\<rparr>"
      using head b(1) by (simp add: with_buffer_def r(1))
    have fill: "\<And>i. i < k \<Longrightarrow> b ! i = (if i < size_m v then buffer_m (data_m v) ! i else Some z)"
      using b(3) r(3) assms(2) by auto
    have le: "size_m v \<le> k" using assms(2) by simp
    note st = filled_state [OF assms(1) le b(2) fill]
    show ?thesis using res st Some by (auto simp: Capacity_def)
  qed
qed

lemma Resize_returns:
  assumes "invariant v" "Resize E k v = Returns u v'"
  shows "invariant v' \<and> size_m v' = k \<and>
         (k \<le> size_m v \<longrightarrow> elements v' = take k (elements v) \<and> Capacity v' = Capacity v) \<and>
         (size_m v < k \<longrightarrow>
            (\<exists>z. value_initialized E = Some z \<and> Capacity v' = k \<and>
                 elements v' = elements v @ replicate (k - size_m v) z))"
proof (cases "k \<le> size_m v")
  case True
  from Resize_shrinking [OF assms(1) True, of E]
  obtain b where b: "Resize E k v = Returns () ((with_buffer v b)\<lparr>size_m := k\<rparr>)"
    "length b = length (buffer_m (data_m v))"
    "\<And>i. i < length b \<Longrightarrow> b ! i = (if k \<le> i \<and> i < size_m v then None else buffer_m (data_m v) ! i)"
    by blast
  have v': "v' = (with_buffer v b)\<lparr>size_m := k\<rparr>" using b(1) assms(2) by simp
  note st = shrunk_state [OF assms(1) True b(2) b(3)]
  show ?thesis using st True by (simp add: v' Capacity_def with_buffer_def)
next
  case False
  then have lt: "size_m v < k" by simp
  note fit = Resize_growing_fits [OF lt assms(2)]
  from Resize_growing [OF assms(1) lt fit, of u v'] assms(2) show ?thesis using lt by auto
qed








subsection \<open>Erasing an element\<close>

lemma move_loop_cases:
  assumes "d + 1 + n \<le> length b" "\<And>i. i \<le> n \<Longrightarrow> b ! (d + i) \<noteq> None"
  shows "case move_loop E b (Suc d) n d of
           Returns u r \<Rightarrow>
             (\<forall>k<n. \<not> move_assign_throws E (the (b ! (d + 1 + k)))) \<and> liveness r = liveness b \<and>
             (\<forall>i<length b. i \<noteq> d + n \<longrightarrow> r ! i = (if d \<le> i \<and> i < d + n then b ! (i + 1) else b ! i))
         | Throws e r \<Rightarrow>
             e = element_exception \<and> (\<exists>k<n. move_assign_throws E (the (b ! (d + 1 + k)))) \<and>
             liveness r = liveness b
         | Undefined \<Rightarrow> False"
  using assms
proof (induction n arbitrary: b d)
  case 0
  then show ?case by simp
next
  case (Suc n)
  have l0: "b ! d \<noteq> None" using Suc.prems(2) [of 0] by simp
  have l1: "b ! (Suc d) \<noteq> None" using Suc.prems(2) [of 1] by simp
  then obtain x where x: "b ! (Suc d) = Some x" by blast
  from l0 obtain y where y: "b ! d = Some y" by blast
  have r1: "read_at b (Suc d) = Some x" using x Suc.prems(1) by (simp add: read_at_def)
  have r0: "read_at b d = Some y" using y Suc.prems(1) by (simp add: read_at_def)
  let ?b1 = "b[d := Some x, Suc d := Some (moved_from E x)]"
  have lv: "liveness ?b1 = liveness b"
    using l0 l1 by (simp add: liveness_update_live)
  show ?case
  proof (cases "move_assign_throws E x")
    case True
    have "move_assign_throws E (the (b ! (d + 1 + 0)))" using True x by simp
    then have "\<exists>k<Suc n. move_assign_throws E (the (b ! (d + 1 + k)))" by blast
    then show ?thesis using r1 r0 True by simp
  next
    case False
    have eq: "move_loop E b (Suc d) (Suc n) d = move_loop E ?b1 (Suc (Suc d)) n (Suc d)"
      using r1 r0 False by simp
    have p1: "Suc d + 1 + n \<le> length ?b1" using Suc.prems(1) by simp
    have p2: "?b1 ! (Suc d + i) \<noteq> None" if "i \<le> n" for i
      using Suc.prems(2) [of "Suc i"] that Suc.prems(1) by (cases i) simp_all
    note ih = Suc.IH [OF p1 p2]
    have src: "the (?b1 ! (Suc d + 1 + k)) = the (b ! (d + 1 + Suc k))" for k by simp
    show ?thesis
    proof (cases "move_loop E ?b1 (Suc (Suc d)) n (Suc d)")
      case Undefined
      then show ?thesis using ih by simp
    next
      case (Throws e r)
      then have t: "e = element_exception" "\<exists>k<n. move_assign_throws E (the (?b1 ! (Suc d + 1 + k)))"
        "liveness r = liveness ?b1" using ih by simp_all
      from t(2) obtain k where "k < n" "move_assign_throws E (the (b ! (d + 1 + Suc k)))"
        unfolding src by blast
      then have "\<exists>k<Suc n. move_assign_throws E (the (b ! (d + 1 + k)))"
        by (intro exI [of _ "Suc k"]) simp
      then show ?thesis using eq Throws t(1) t(3) lv by simp
    next
      case (Returns u r)
      then have t: "\<And>k. k < n \<Longrightarrow> \<not> move_assign_throws E (the (?b1 ! (Suc d + 1 + k)))"
        "liveness r = liveness ?b1"
        "\<And>i. i < length b \<Longrightarrow> i \<noteq> Suc d + n \<Longrightarrow>
            r ! i = (if Suc d \<le> i \<and> i < Suc d + n then ?b1 ! (i + 1) else ?b1 ! i)"
        using ih by simp_all
      have a: "\<forall>k<Suc n. \<not> move_assign_throws E (the (b ! (d + 1 + k)))"
      proof (intro allI impI)
        fix k assume k: "k < Suc n"
        show "\<not> move_assign_throws E (the (b ! (d + 1 + k)))"
        proof (cases k)
          case 0
          then show ?thesis using False x by simp
        next
          case (Suc k')
          then show ?thesis using t(1) [of k'] k unfolding src by simp
        qed
      qed
      have c: "\<forall>i<length b. i \<noteq> d + Suc n \<longrightarrow>
                 r ! i = (if d \<le> i \<and> i < d + Suc n then b ! (i + 1) else b ! i)"
      proof (intro allI impI)
        fix i assume i: "i < length b" "i \<noteq> d + Suc n"
        then have "i \<noteq> Suc d + n" by simp
        note ti = t(3) [OF i(1) this]
        show "r ! i = (if d \<le> i \<and> i < d + Suc n then b ! (i + 1) else b ! i)"
        proof (cases "i = d")
          case True
          then show ?thesis using ti x i(1) Suc.prems(1) by simp
        next
          case False
          then show ?thesis using ti i by (auto simp: nth_list_update)
        qed
      qed
      show ?thesis using eq Returns a c t(2) lv by simp
    qed
  qed
qed

lemma move_backward_loop_cases:
  assumes "n \<le> l" "l < length b" "\<And>i. i \<le> n \<Longrightarrow> b ! (l - i) \<noteq> None"
  shows "case move_backward_loop E b n l (Suc l) of
           Returns u r \<Rightarrow>
             (\<forall>k<n. \<not> move_assign_throws E (the (b ! (l - 1 - k)))) \<and> liveness r = liveness b \<and>
             (\<forall>i<length b. i \<noteq> l - n \<longrightarrow> r ! i = (if l - n < i \<and> i \<le> l then b ! (i - 1) else b ! i))
         | Throws e r \<Rightarrow>
             e = element_exception \<and> (\<exists>k<n. move_assign_throws E (the (b ! (l - 1 - k)))) \<and>
             liveness r = liveness b
         | Undefined \<Rightarrow> False"
  using assms
proof (induction n arbitrary: b l)
  case 0
  then show ?case by simp
next
  case (Suc n)
  have lpos: "0 < l" using Suc.prems(1) by simp
  then obtain l' where l': "l = Suc l'" by (cases l) simp_all
  have l0: "b ! l \<noteq> None" using Suc.prems(3) [of 0] by simp
  have l1: "b ! l' \<noteq> None" using Suc.prems(3) [of 1] l' by simp
  then obtain x where x: "b ! l' = Some x" by blast
  from l0 obtain y where y: "b ! l = Some y" by blast
  have r1: "read_at b l' = Some x" using x Suc.prems(2) l' by (simp add: read_at_def)
  have r0: "read_at b l = Some y" using y Suc.prems(2) by (simp add: read_at_def)
  let ?b1 = "b[l := Some x, l' := Some (moved_from E x)]"
  have lv0: "liveness (b[l := Some x]) = liveness b"
    using l0 by (intro liveness_update_live)
  have "(b[l := Some x]) ! l' \<noteq> None" using l1 l' by simp
  then have "liveness ?b1 = liveness (b[l := Some x])"
    by (intro liveness_update_live)
  then have lv: "liveness ?b1 = liveness b" using lv0 by simp
  have head: "move_backward_loop E b (Suc n) l (Suc l) =
      (if move_assign_throws E x then Throws element_exception b
       else move_backward_loop E ?b1 n l' (Suc l'))"
    using r1 r0 l' by simp
  show ?case
  proof (cases "move_assign_throws E x")
    case True
    have "move_assign_throws E (the (b ! (l - 1 - 0)))" using True x l' by simp
    then have "\<exists>k<Suc n. move_assign_throws E (the (b ! (l - 1 - k)))" by blast
    then show ?thesis using head True by simp
  next
    case False
    have eq: "move_backward_loop E b (Suc n) l (Suc l) = move_backward_loop E ?b1 n l' (Suc l')"
      using head False by simp
    have p1: "n \<le> l'" using Suc.prems(1) l' by simp
    have p2: "l' < length ?b1" using Suc.prems(2) l' by simp
    have p3: "?b1 ! (l' - i) \<noteq> None" if "i \<le> n" for i
    proof (cases i)
      case 0
      then show ?thesis using p2 by simp
    next
      case (Suc i')
      have "b ! (l - Suc i) \<noteq> None" using Suc.prems(3) [of "Suc i"] that by simp
      moreover have "l - Suc i = l' - i" using l' by simp
      moreover have "l' - i \<noteq> l" "l' - i \<noteq> l'" using l' Suc that p1 by simp_all
      ultimately show ?thesis by simp
    qed
    note ih = Suc.IH [OF p1 p2 p3]
    have src: "the (?b1 ! (l' - 1 - k)) = the (b ! (l - 1 - Suc k))" if "k < n" for k
    proof -
      have "l' - 1 - k \<noteq> l" "l' - 1 - k \<noteq> l'" using that p1 l' by simp_all
      moreover have "l' - 1 - k = l - 1 - Suc k" using l' by simp
      ultimately show ?thesis by simp
    qed
    show ?thesis
    proof (cases "move_backward_loop E ?b1 n l' (Suc l')")
      case Undefined
      then show ?thesis using ih by simp
    next
      case (Throws e r)
      then have t: "e = element_exception" "\<exists>k<n. move_assign_throws E (the (?b1 ! (l' - 1 - k)))"
        "liveness r = liveness ?b1" using ih by simp_all
      from t(2) obtain k where k: "k < n" "move_assign_throws E (the (?b1 ! (l' - 1 - k)))" by blast
      then have "move_assign_throws E (the (b ! (l - 1 - Suc k)))" using src [OF k(1)] by simp
      then have "\<exists>k<Suc n. move_assign_throws E (the (b ! (l - 1 - k)))"
        using k(1) by (intro exI [of _ "Suc k"]) simp
      then show ?thesis using eq Throws t(1) t(3) lv by simp
    next
      case (Returns u r)
      then have t: "\<And>k. k < n \<Longrightarrow> \<not> move_assign_throws E (the (?b1 ! (l' - 1 - k)))"
        "liveness r = liveness ?b1"
        "\<And>i. i < length b \<Longrightarrow> i \<noteq> l' - n \<Longrightarrow>
            r ! i = (if l' - n < i \<and> i \<le> l' then ?b1 ! (i - 1) else ?b1 ! i)"
        using ih by simp_all
      have a: "\<forall>k<Suc n. \<not> move_assign_throws E (the (b ! (l - 1 - k)))"
      proof (intro allI impI)
        fix k assume k: "k < Suc n"
        show "\<not> move_assign_throws E (the (b ! (l - 1 - k)))"
        proof (cases k)
          case 0
          then show ?thesis using False x l' by simp
        next
          case (Suc k')
          then have "k' < n" using k by simp
          then show ?thesis using t(1) [of k'] src [of k'] Suc by simp
        qed
      qed
      have c: "\<forall>i<length b. i \<noteq> l - Suc n \<longrightarrow>
                 r ! i = (if l - Suc n < i \<and> i \<le> l then b ! (i - 1) else b ! i)"
      proof (intro allI impI)
        fix i assume i: "i < length b" "i \<noteq> l - Suc n"
        then have "i \<noteq> l' - n" using l' by simp
        note ti = t(3) [OF i(1) this]
        show "r ! i = (if l - Suc n < i \<and> i \<le> l then b ! (i - 1) else b ! i)"
        proof (cases "i = l")
          case True
          have "l' - n < Suc l'" by arith
          then show ?thesis using True ti x i(1) l' by simp
        next
          case False
          show ?thesis
          proof (cases "l' - n < i \<and> i \<le> l'")
            case True
            then have "i - 1 \<noteq> l" "i - 1 \<noteq> l'" using l' by arith+
            then have "?b1 ! (i - 1) = b ! (i - 1)" by simp
            then show ?thesis using ti True l' by simp
          next
            case nr: False
            then have "i \<noteq> l'" using i(2) l' p1 by auto
            then have "?b1 ! i = b ! i" using False by simp
            then show ?thesis using ti nr False l' i(2) by auto
          qed
        qed
      qed
      show ?thesis using eq Returns a c t(2) lv by simp
    qed
  qed
qed

lemma erased_state:
  assumes "invariant v" "p < size_m v" "length r = length (buffer_m (data_m v))"
    and "\<And>i. i < length r \<Longrightarrow> r ! i = (if i < p then buffer_m (data_m v) ! i
                                         else if i < size_m v - 1 then buffer_m (data_m v) ! (i + 1)
                                         else None)"
  shows "invariant ((with_buffer v r)\<lparr>size_m := size_m v - 1\<rparr>)"
    and "elements ((with_buffer v r)\<lparr>size_m := size_m v - 1\<rparr>)
           = take p (elements v) @ drop (Suc p) (elements v)"
proof -
  note inv = invariantD [OF assms(1)]
  note len = elements_length [OF assms(1)]
  let ?v' = "(with_buffer v r)\<lparr>size_m := size_m v - 1\<rparr>"
  have sz: "size_m ?v' = size_m v - 1" and bf: "buffer_m (data_m ?v') = r"
    and cp: "capacity_m (data_m ?v') = capacity_m (data_m v)"
    by (simp_all add: with_buffer_def)
  show "invariant ?v'"
  proof (rule invariantI)
    show "length (buffer_m (data_m ?v')) = capacity_m (data_m ?v')"
      using assms(3) inv(1) by (simp add: with_buffer_def)
    show "size_m ?v' \<le> capacity_m (data_m ?v')" using inv(2) by (simp add: with_buffer_def)
  next
    fix i assume "i < size_m ?v'"
    then have i: "i < size_m v - 1" by (simp add: with_buffer_def)
    then have il: "i < length r" using assms(3) inv(1) inv(2) by simp
    show "buffer_m (data_m ?v') ! i \<noteq> None"
    proof (cases "i < p")
      case True
      then have "i < size_m v" using assms(2) by simp
      from inv(3) [OF this] show ?thesis using assms(4) [OF il] True by (auto simp: with_buffer_def)
    next
      case False
      have "i + 1 < size_m v" using i by simp
      from inv(3) [OF this] show ?thesis using assms(4) [OF il] False i by (auto simp: with_buffer_def)
    qed
  next
    fix i assume "size_m ?v' \<le> i" "i < capacity_m (data_m ?v')"
    then have i: "size_m v - 1 \<le> i" "i < capacity_m (data_m v)" by (simp_all add: with_buffer_def)
    then have il: "i < length r" using assms(3) inv(1) by simp
    have "\<not> i < p" using i(1) assms(2) by simp
    then show "buffer_m (data_m ?v') ! i = None" using assms(4) [OF il] i(1) by (simp add: with_buffer_def)
  qed
  show "elements ?v' = take p (elements v) @ drop (Suc p) (elements v)"
  proof (rule nth_equalityI)
    show "length (elements ?v') = length (take p (elements v) @ drop (Suc p) (elements v))"
      using assms(2) assms(3) inv(1) inv(2) len by (simp add: elements_def with_buffer_def)
    fix i assume "i < length (elements ?v')"
    then have i: "i < size_m v - 1" using assms(3) inv(1) inv(2) by (simp add: elements_def with_buffer_def)
    then have il: "i < length r" using assms(3) inv(1) inv(2) by simp
    have lhs: "elements ?v' ! i = the (r ! i)" using i il by (simp add: elements_def with_buffer_def)
    show "elements ?v' ! i = (take p (elements v) @ drop (Suc p) (elements v)) ! i"
    proof (cases "i < p")
      case True
      then have "i < size_m v" using assms(2) by simp
      from elements_nth [OF assms(1) this] show ?thesis
        using lhs assms(4) [OF il] True assms(2) len by (simp add: nth_append)
    next
      case False
      have i1: "i + 1 < size_m v" using i by simp
      have "(take p (elements v) @ drop (Suc p) (elements v)) ! i = drop (Suc p) (elements v) ! (i - p)"
        using False assms(2) len by (simp add: nth_append)
      also have "\<dots> = elements v ! (i + 1)" using False len i1 by simp
      finally show ?thesis using lhs assms(4) [OF il] False i elements_nth [OF assms(1) i1] by simp
    qed
  qed
qed

lemma Erase_cases:
  assumes "invariant v" "p < size_m v"
  shows "case Erase E p v of
           Returns q v' \<Rightarrow>
             q = p \<and> (\<forall>k. p < k \<and> k < size_m v \<longrightarrow> \<not> move_assign_throws E (elements v ! k)) \<and>
             invariant v' \<and> size_m v' = size_m v - 1 \<and> Capacity v' = Capacity v \<and>
             elements v' = take p (elements v) @ drop (Suc p) (elements v)
         | Throws e v' \<Rightarrow>
             e = element_exception \<and>
             (\<exists>k. p < k \<and> k < size_m v \<and> move_assign_throws E (elements v ! k)) \<and>
             invariant v' \<and> size_m v' = size_m v \<and> Capacity v' = Capacity v
         | Undefined \<Rightarrow> False"
proof -
  note inv = invariantD [OF assms(1)]
  let ?b = "buffer_m (data_m v)"
  let ?n = "size_m v - Suc p"
  have pl: "RawMemory_plus (data_m v) (size_m v) = Some (size_m v)"
    using inv(2) by (simp add: RawMemory_plus_def)
  have head: "Erase E p v =
     (case move_loop E ?b (Suc p) ?n p of
        Undefined \<Rightarrow> Undefined
      | Throws e b \<Rightarrow> Throws e (with_buffer v b)
      | Returns u b \<Rightarrow>
          (case destroy_at b (size_m v - 1) of
             None \<Rightarrow> Undefined
           | Some b' \<Rightarrow> Returns p ((with_buffer v b')\<lparr>size_m := size_m v - 1\<rparr>)))"
    using assms(2) pl by (simp add: Erase_def std_move_def Let_def)
  have p1: "p + 1 + ?n \<le> length ?b" using assms(2) inv(1) inv(2) by simp
  have p2: "?b ! (p + i) \<noteq> None" if "i \<le> ?n" for i
  proof -
    have "p + i < size_m v" using that assms(2) by simp
    from inv(3) [OF this] show ?thesis by simp
  qed
  note ml = move_loop_cases [OF p1 p2, of E]
  have el: "the (?b ! (p + 1 + k)) = elements v ! (p + 1 + k)" if "k < ?n" for k
  proof -
    have "p + 1 + k < size_m v" using that by simp
    from elements_nth [OF assms(1) this] show ?thesis by simp
  qed
  show ?thesis
  proof (cases "move_loop E ?b (Suc p) ?n p")
    case Undefined
    then show ?thesis using ml by simp
  next
    case (Throws e r)
    then have t: "e = element_exception" "\<exists>k<?n. move_assign_throws E (the (?b ! (p + 1 + k)))"
      "liveness r = liveness ?b" using ml by simp_all
    from t(2) obtain k where k: "k < ?n" "move_assign_throws E (elements v ! (p + 1 + k))"
      using el by auto
    then have "p < p + 1 + k \<and> p + 1 + k < size_m v \<and> move_assign_throws E (elements v ! (p + 1 + k))"
      by simp
    then have ex: "\<exists>k. p < k \<and> k < size_m v \<and> move_assign_throws E (elements v ! k)" by blast
    have "Erase E p v = Throws e (with_buffer v r)" using head Throws by simp
    then show ?thesis using t(1) ex invariant_liveness [OF assms(1) t(3)]
      by (simp add: with_buffer_def Capacity_def)
  next
    case (Returns u r)
    then have t: "\<And>k. k < ?n \<Longrightarrow> \<not> move_assign_throws E (the (?b ! (p + 1 + k)))"
      "liveness r = liveness ?b"
      "\<And>i. i < length ?b \<Longrightarrow> i \<noteq> p + ?n \<Longrightarrow>
           r ! i = (if p \<le> i \<and> i < p + ?n then ?b ! (i + 1) else ?b ! i)"
      using ml by simp_all
    note lr = liveness_eqD [OF t(2)]
    have last: "size_m v - 1 < length ?b" using assms(2) inv(1) inv(2) by simp
    have "?b ! (size_m v - 1) \<noteq> None" using inv(3) [of "size_m v - 1"] assms(2) by auto
    then have "r ! (size_m v - 1) \<noteq> None" using lr(2) [OF last] by simp
    then have da: "destroy_at r (size_m v - 1) = Some (r[size_m v - 1 := None])"
      using last lr(1) by (simp add: destroy_at_live)
    let ?r' = "r[size_m v - 1 := None]"
    have res: "Erase E p v = Returns p ((with_buffer v ?r')\<lparr>size_m := size_m v - 1\<rparr>)"
      using head Returns da by simp
    have nt: "\<forall>k. p < k \<and> k < size_m v \<longrightarrow> \<not> move_assign_throws E (elements v ! k)"
    proof (intro allI impI)
      fix k assume k: "p < k \<and> k < size_m v"
      then have "k - p - 1 < ?n" by arith
      from t(1) [OF this] el [OF this] show "\<not> move_assign_throws E (elements v ! k)" using k by simp
    qed
    have lr': "length ?r' = length ?b" using lr(1) by simp
    have pw: "?r' ! i = (if i < p then ?b ! i else if i < size_m v - 1 then ?b ! (i + 1) else None)"
      if "i < length ?r'" for i
    proof (cases "i = size_m v - 1")
      case True
      have "\<not> size_m v - 1 < p" using assms(2) by arith
      then show ?thesis using True that by simp
    next
      case False
      have il: "i < length ?b" using that lr(1) by simp
      have "i \<noteq> p + ?n" using False assms(2) by simp
      note ti = t(3) [OF il this]
      show ?thesis
      proof (cases "i < size_m v - 1")
        case True
        then show ?thesis using ti False assms(2) by auto
      next
        case ge: False
        then have "size_m v \<le> i" using False by simp
        from inv(4) [OF this] il inv(1) have "?b ! i = None" by simp
        then show ?thesis using ti False ge assms(2) by auto
      qed
    qed
    note st = erased_state [OF assms(1) assms(2) lr' pw]
    show ?thesis using res nt st by (simp add: with_buffer_def Capacity_def)
  qed
qed

lemma Erase_returns:
  assumes "invariant v" "p < size_m v" "Erase E p v = Returns q v'"
  shows "q = p \<and> invariant v' \<and> size_m v' = size_m v - 1 \<and> Capacity v' = Capacity v \<and>
         elements v' = take p (elements v) @ drop (Suc p) (elements v)"
  using Erase_cases [OF assms(1) assms(2), of E] assms(3) by simp

lemma Erase_throws:
  assumes "invariant v" "p < size_m v" "Erase E p v = Throws e v'"
  shows "invariant v' \<and> size_m v' = size_m v \<and> Capacity v' = Capacity v"
  using Erase_cases [OF assms(1) assms(2), of E] assms(3) by simp


subsection \<open>Inserting an element\<close>

lemma transfer_cases:
  assumes "first + n \<le> length src" "\<And>i. i < n \<Longrightarrow> src ! (first + i) \<noteq> None"
    and "d + n \<le> length dst"
  shows "case (if is_nothrow_move_constructible E \<or> \<not> is_copy_constructible E
               then uninitialized_move_n E src first n dst d
               else uninitialized_copy_n E src first n dst d) of
           Returns u sr \<Rightarrow>
             (\<forall>k<n. \<not> transfer_throws E (the (src ! (first + k)))) \<and>
             liveness (fst sr) = liveness src \<and>
             (\<forall>i<length src. \<not> (first \<le> i \<and> i < first + n) \<longrightarrow> fst sr ! i = src ! i) \<and>
             length (snd sr) = length dst \<and>
             (\<forall>i<length dst. snd sr ! i =
                (if d \<le> i \<and> i < d + n then src ! (first + (i - d)) else dst ! i))
         | Throws e sr \<Rightarrow>
             e = element_exception \<and> (\<exists>k<n. transfer_throws E (the (src ! (first + k)))) \<and>
             liveness (fst sr) = liveness src
         | Undefined \<Rightarrow> False"
proof (cases "\<exists>k<n. transfer_throws E (the (src ! (first + k)))")
  case True
  then obtain k where k: "k < n" "transfer_throws E (the (src ! (first + k)))" by blast
  from transfer_throws [OF assms k] obtain s r where
    "(if is_nothrow_move_constructible E \<or> \<not> is_copy_constructible E
      then uninitialized_move_n E src first n dst d
      else uninitialized_copy_n E src first n dst d) = Throws element_exception (s, r)"
    "liveness s = liveness src" by blast
  then show ?thesis using True by simp
next
  case False
  then have "\<And>i. i < n \<Longrightarrow> \<not> transfer_throws E (the (src ! (first + i)))" by blast
  from transfer_returns [OF assms this] obtain s r where
    "(if is_nothrow_move_constructible E \<or> \<not> is_copy_constructible E
      then uninitialized_move_n E src first n dst d
      else uninitialized_copy_n E src first n dst d) = Returns () (s, r)"
    "liveness s = liveness src"
    "\<forall>i<length src. \<not> (first \<le> i \<and> i < first + n) \<longrightarrow> s ! i = src ! i"
    "length r = length dst"
    "\<forall>i<length dst. r ! i = (if d \<le> i \<and> i < d + n then src ! (first + (i - d)) else dst ! i)"
    by blast
  then show ?thesis using False by simp
qed

text \<open>Two transfers in a row, as in the growing branch of \<^verbatim>\<open>Emplace\<close>: the elements before
  \<open>p\<close> to the front of the new block, the elements from \<open>p\<close> on behind slot \<open>p\<close>.\<close>

lemma double_transfer:
  fixes tr :: "'a buffer \<Rightarrow> nat \<Rightarrow> nat \<Rightarrow> 'a buffer \<Rightarrow> nat \<Rightarrow> (unit, 'a buffer \<times> 'a buffer) outcome"
  assumes spec: "\<And>src first n dst d.
      first + n \<le> length src \<Longrightarrow> (\<And>i. i < n \<Longrightarrow> src ! (first + i) \<noteq> None) \<Longrightarrow>
      d + n \<le> length dst \<Longrightarrow>
      (case tr src first n dst d of
           Returns u sr \<Rightarrow>
             (\<forall>k<n. \<not> thr (the (src ! (first + k)))) \<and>
             liveness (fst sr) = liveness src \<and>
             (\<forall>i<length src. \<not> (first \<le> i \<and> i < first + n) \<longrightarrow> fst sr ! i = src ! i) \<and>
             length (snd sr) = length dst \<and>
             (\<forall>i<length dst. snd sr ! i =
                (if d \<le> i \<and> i < d + n then src ! (first + (i - d)) else dst ! i))
         | Throws e sr \<Rightarrow>
             e = element_exception \<and> (\<exists>k<n. thr (the (src ! (first + k)))) \<and>
             liveness (fst sr) = liveness src
         | Undefined \<Rightarrow> False)"
    and "sz \<le> length src" "\<And>i. i < sz \<Longrightarrow> src ! i \<noteq> None" "p \<le> sz" "sz < length dst"
  shows "case (case tr src 0 p dst 0 of
                 Undefined \<Rightarrow> Undefined
               | Throws e sb \<Rightarrow> Throws e sb
               | Returns u (ob1, nb1) \<Rightarrow> tr ob1 p (sz - p) nb1 (p + 1)) of
           Returns u sr \<Rightarrow>
             (\<forall>k < sz. \<not> thr (the (src ! k))) \<and>
             liveness (fst sr) = liveness src \<and> length (snd sr) = length dst \<and>
             (\<forall>i<length dst. snd sr ! i =
                (if i < p then src ! i else if p < i \<and> i \<le> sz then src ! (i - 1) else dst ! i))
         | Throws e sr \<Rightarrow>
             e = element_exception \<and> (\<exists>k < sz. thr (the (src ! k))) \<and> liveness (fst sr) = liveness src
         | Undefined \<Rightarrow> False"
proof -
  have a1: "0 + p \<le> length src" using assms(2) assms(4) by simp
  have a2: "\<And>i. i < p \<Longrightarrow> src ! (0 + i) \<noteq> None" using assms(3) assms(4) by simp
  have a3: "0 + p \<le> length dst" using assms(4) assms(5) by simp
  note s1 = spec [OF a1 a2 a3]
  show ?thesis
  proof (cases "tr src 0 p dst 0")
    case Undefined
    then show ?thesis using s1 by simp
  next
    case (Throws e sr)
    then have t: "e = element_exception" "\<exists>k<p. thr (the (src ! (0 + k)))" "liveness (fst sr) = liveness src"
      using s1 by simp_all
    from t(2) obtain k where "k < p" "thr (the (src ! k))" by auto
    then have "\<exists>k < sz. thr (the (src ! k))" using assms(4) by (intro exI [of _ k]) simp
    then show ?thesis using Throws t(1) t(3) by simp
  next
    case (Returns u sr)
    obtain ob1 nb1 where sr: "sr = (ob1, nb1)" by (cases sr)
    have t: "\<And>k. k < p \<Longrightarrow> \<not> thr (the (src ! k))" "liveness ob1 = liveness src"
      "\<And>i. i < length src \<Longrightarrow> p \<le> i \<Longrightarrow> ob1 ! i = src ! i"
      "length nb1 = length dst"
      "\<And>i. i < length dst \<Longrightarrow> nb1 ! i = (if i < p then src ! i else dst ! i)"
      using s1 Returns sr by simp_all
    note l1 = liveness_eqD [OF t(2)]
    have b1: "p + (sz - p) \<le> length ob1" using assms(2) assms(4) l1(1) by simp
    have b2: "ob1 ! (p + i) \<noteq> None" if "i < sz - p" for i
    proof -
      have "p + i < sz" using that by simp
      then show ?thesis using assms(3) [of "p + i"] l1(2) [of "p + i"] assms(2) by simp
    qed
    have b3: "p + 1 + (sz - p) \<le> length nb1" using assms(4) assms(5) t(4) by simp
    note s2 = spec [OF b1 b2 b3]
    have eq: "(case tr src 0 p dst 0 of
                 Undefined \<Rightarrow> Undefined
               | Throws e sb \<Rightarrow> Throws e sb
               | Returns u (ob1, nb1) \<Rightarrow> tr ob1 p (sz - p) nb1 (p + 1)) = tr ob1 p (sz - p) nb1 (p + 1)"
      using Returns sr by simp
    have val: "the (ob1 ! (p + k)) = the (src ! (p + k))" if "k < sz - p" for k
      using t(3) [of "p + k"] that assms(2) by simp
    show ?thesis
    proof (cases "tr ob1 p (sz - p) nb1 (p + 1)")
      case Undefined
      then show ?thesis using s2 by simp
    next
      case (Throws e sr2)
      then have q: "e = element_exception" "\<exists>k < sz - p. thr (the (ob1 ! (p + k)))"
        "liveness (fst sr2) = liveness ob1" using s2 by simp_all
      from q(2) obtain k where k: "k < sz - p" "thr (the (src ! (p + k)))" using val by auto
      then have "\<exists>k < sz. thr (the (src ! k))" by (intro exI [of _ "p + k"]) simp
      then show ?thesis unfolding eq using Throws q(1) q(3) t(2) by simp
    next
      case r2: (Returns u2 sr2)
      then have q: "\<And>k. k < sz - p \<Longrightarrow> \<not> thr (the (ob1 ! (p + k)))"
        "liveness (fst sr2) = liveness ob1" "length (snd sr2) = length nb1"
        "\<And>i. i < length nb1 \<Longrightarrow> snd sr2 ! i =
            (if p + 1 \<le> i \<and> i < p + 1 + (sz - p) then ob1 ! (p + (i - (p + 1))) else nb1 ! i)"
        using s2 by simp_all
      have nt: "\<forall>k < sz. \<not> thr (the (src ! k))"
      proof (intro allI impI)
        fix k assume k: "k < sz"
        show "\<not> thr (the (src ! k))"
        proof (cases "k < p")
          case True
          then show ?thesis using t(1) by simp
        next
          case False
          then have "k - p < sz - p" using k by simp
          from q(1) [OF this] val [OF this] show ?thesis using False by simp
        qed
      qed
      have pw: "\<forall>i<length dst. snd sr2 ! i =
                (if i < p then src ! i else if p < i \<and> i \<le> sz then src ! (i - 1) else dst ! i)"
      proof (intro allI impI)
        fix i assume i: "i < length dst"
        then have i1: "i < length nb1" using t(4) by simp
        show "snd sr2 ! i = (if i < p then src ! i else if p < i \<and> i \<le> sz then src ! (i - 1) else dst ! i)"
        proof (cases "p < i \<and> i \<le> sz")
          case True
          then have "p + (i - (p + 1)) = i - 1" by simp
          moreover have "i - 1 < length src" "p \<le> i - 1" using True assms(2) by arith+
          then have "ob1 ! (i - 1) = src ! (i - 1)" by (rule t(3))
          ultimately show ?thesis using q(4) [OF i1] True assms(4) by simp
        next
          case False
          then have "\<not> (p + 1 \<le> i \<and> i < p + 1 + (sz - p))" using assms(4) by auto
          then show ?thesis using q(4) [OF i1] t(5) [OF i] False by auto
        qed
      qed
      show ?thesis unfolding eq using r2 nt pw q(2) q(3) t(2) t(4) by simp
    qed
  qed
qed

lemma umove_spec:
  assumes "first + n \<le> length src" "\<And>i. i < n \<Longrightarrow> src ! (first + i) \<noteq> None"
    and "d + n \<le> length dst"
  shows "case uninitialized_move_n E src first n dst d of
           Returns u sr \<Rightarrow>
             (\<forall>k<n. \<not> move_ctor_may_throw E (the (src ! (first + k)))) \<and>
             liveness (fst sr) = liveness src \<and>
             (\<forall>i<length src. \<not> (first \<le> i \<and> i < first + n) \<longrightarrow> fst sr ! i = src ! i) \<and>
             length (snd sr) = length dst \<and>
             (\<forall>i<length dst. snd sr ! i =
                (if d \<le> i \<and> i < d + n then src ! (first + (i - d)) else dst ! i))
         | Throws e sr \<Rightarrow>
             e = element_exception \<and> (\<exists>k<n. move_ctor_may_throw E (the (src ! (first + k)))) \<and>
             liveness (fst sr) = liveness src
         | Undefined \<Rightarrow> False"
proof (cases "\<exists>k<n. move_ctor_may_throw E (the (src ! (first + k)))")
  case True
  then obtain k where k: "k < n" "move_ctor_may_throw E (the (src ! (first + k)))" by blast
  from umove_throws [OF assms k] obtain s r where
    "uninitialized_move_n E src first n dst d = Throws element_exception (s, r)"
    "liveness s = liveness src" by blast
  then show ?thesis using True by simp
next
  case False
  then have "\<And>i. i < n \<Longrightarrow> \<not> move_ctor_may_throw E (the (src ! (first + i)))" by blast
  from umove_returns [OF assms this] obtain s r where
    "uninitialized_move_n E src first n dst d = Returns () (s, r)"
    "liveness s = liveness src"
    "\<forall>i<length src. \<not> (first \<le> i \<and> i < first + n) \<longrightarrow> s ! i = src ! i"
    "length r = length dst"
    "\<forall>i<length dst. r ! i = (if d \<le> i \<and> i < d + n then src ! (first + (i - d)) else dst ! i)"
    by blast
  then show ?thesis using False by simp
qed

lemma ucopy_spec:
  assumes "first + n \<le> length src" "\<And>i. i < n \<Longrightarrow> src ! (first + i) \<noteq> None"
    and "d + n \<le> length dst"
  shows "case uninitialized_copy_n E src first n dst d of
           Returns u sr \<Rightarrow>
             (\<forall>k<n. \<not> copy_ctor_throws E (the (src ! (first + k)))) \<and>
             liveness (fst sr) = liveness src \<and>
             (\<forall>i<length src. \<not> (first \<le> i \<and> i < first + n) \<longrightarrow> fst sr ! i = src ! i) \<and>
             length (snd sr) = length dst \<and>
             (\<forall>i<length dst. snd sr ! i =
                (if d \<le> i \<and> i < d + n then src ! (first + (i - d)) else dst ! i))
         | Throws e sr \<Rightarrow>
             e = element_exception \<and> (\<exists>k<n. copy_ctor_throws E (the (src ! (first + k)))) \<and>
             liveness (fst sr) = liveness src
         | Undefined \<Rightarrow> False"
proof (cases "\<exists>k<n. copy_ctor_throws E (the (src ! (first + k)))")
  case True
  then obtain k where k: "k < n" "copy_ctor_throws E (the (src ! (first + k)))" by blast
  from ucopy_throws [OF assms k] obtain r where
    "uninitialized_copy_n E src first n dst d = Throws element_exception (src, r)" by blast
  then show ?thesis using True by simp
next
  case False
  then have "\<And>i. i < n \<Longrightarrow> \<not> copy_ctor_throws E (the (src ! (first + i)))" by blast
  from ucopy_returns [OF assms this] obtain r where
    "uninitialized_copy_n E src first n dst d = Returns () (src, r)"
    "length r = length dst"
    "\<forall>i<length dst. r ! i = (if d \<le> i \<and> i < d + n then src ! (first + (i - d)) else dst ! i)"
    by blast
  then show ?thesis using False by simp
qed

lemma emplace_transfer:
  assumes "sz \<le> length src" "\<And>i. i < sz \<Longrightarrow> src ! i \<noteq> None" "p \<le> sz" "sz < length dst"
  shows "case (if is_nothrow_move_constructible E \<or> \<not> is_copy_constructible E
               then (case uninitialized_move_n E src 0 p dst 0 of
                       Undefined \<Rightarrow> Undefined
                     | Throws e sb \<Rightarrow> Throws e sb
                     | Returns u (ob1, nb1) \<Rightarrow> uninitialized_move_n E ob1 p (sz - p) nb1 (p + 1))
               else (case uninitialized_copy_n E src 0 p dst 0 of
                       Undefined \<Rightarrow> Undefined
                     | Throws e sb \<Rightarrow> Throws e sb
                     | Returns u (ob1, nb1) \<Rightarrow> uninitialized_copy_n E ob1 p (sz - p) nb1 (p + 1))) of
           Returns u sr \<Rightarrow>
             (\<forall>k < sz. \<not> transfer_throws E (the (src ! k))) \<and>
             liveness (fst sr) = liveness src \<and> length (snd sr) = length dst \<and>
             (\<forall>i<length dst. snd sr ! i =
                (if i < p then src ! i else if p < i \<and> i \<le> sz then src ! (i - 1) else dst ! i))
         | Throws e sr \<Rightarrow>
             e = element_exception \<and> (\<exists>k < sz. transfer_throws E (the (src ! k))) \<and>
             liveness (fst sr) = liveness src
         | Undefined \<Rightarrow> False"
proof (cases "is_nothrow_move_constructible E \<or> \<not> is_copy_constructible E")
  case True
  have m: "(is_nothrow_move_constructible E \<or> \<not> is_copy_constructible E) = True" using True by simp
  have tt: "transfer_throws E = move_ctor_may_throw E"
    using True by (simp add: fun_eq_iff transfer_throws_def)
  show ?thesis
    unfolding m if_True tt
    by (rule double_transfer [where tr = "uninitialized_move_n E", OF umove_spec assms])
next
  case False
  have m: "(is_nothrow_move_constructible E \<or> \<not> is_copy_constructible E) = False" using False by simp
  have tt: "transfer_throws E = copy_ctor_throws E"
    using False by (simp add: fun_eq_iff transfer_throws_def)
  show ?thesis
    unfolding m if_False tt
    by (rule double_transfer [where tr = "uninitialized_copy_n E", OF ucopy_spec assms])
qed

lemma Emplace_growing_unfold:
  assumes "nc = (if size_m v = 0 then 1 else size_m v * 2)" "\<not> operator_new_throws E nc"
    and "p < size_m v" "size_m v = capacity_m (data_m v)" "p < allocated_slots E nc"
  shows "Emplace_growing E p (Some x) v =
     (case (if is_nothrow_move_constructible E \<or> \<not> is_copy_constructible E
               then (case uninitialized_move_n E (buffer_m (data_m v)) 0 p
                            ((replicate (allocated_slots E nc) None)[p := Some x]) 0 of
                       Undefined \<Rightarrow> Undefined
                     | Throws e sb \<Rightarrow> Throws e sb
                     | Returns u (ob1, nb1) \<Rightarrow> uninitialized_move_n E ob1 p (size_m v - p) nb1 (p + 1))
               else (case uninitialized_copy_n E (buffer_m (data_m v)) 0 p
                            ((replicate (allocated_slots E nc) None)[p := Some x]) 0 of
                       Undefined \<Rightarrow> Undefined
                     | Throws e sb \<Rightarrow> Throws e sb
                     | Returns u (ob1, nb1) \<Rightarrow> uninitialized_copy_n E ob1 p (size_m v - p) nb1 (p + 1))) of
        Undefined \<Rightarrow> Undefined
      | Throws e sr \<Rightarrow> Throws e (with_buffer v (fst sr))
      | Returns u sr \<Rightarrow>
          (case destroy_n (fst sr) 0 (size_m v) of
             None \<Rightarrow> Undefined
           | Some ob' \<Rightarrow>
               Returns p \<lparr>data_m = \<lparr>buffer_m = snd sr, capacity_m = nc\<rparr>, size_m = size_m v + 1\<rparr>))"
proof -
  have lt: "size_m v < nc" and nz: "nc \<noteq> 0" using assms(1) by simp_all
  have rs: "RawMemory_sized E nc =
      Inr \<lparr>buffer_m = replicate (allocated_slots E nc) None, capacity_m = nc\<rparr>"
    using assms(2) nz by (simp add: RawMemory_sized_eq)
  have pl: "RawMemory_plus \<lparr>buffer_m = replicate (allocated_slots E nc) None, capacity_m = nc\<rparr> p = Some p"
    using lt assms(3) by (simp add: RawMemory_plus_def)
  have pl2: "RawMemory_plus (data_m v) p = Some p"
    using assms(3) assms(4) by (simp add: RawMemory_plus_def)
  have ca: "construct_at (replicate (allocated_slots E nc) None) p x =
      Some ((replicate (allocated_slots E nc) None)[p := Some x])"
    using assms(5) by (simp add: construct_at_def)
  show ?thesis
    apply (simp only: Emplace_growing_def Let_def assms(1) [symmetric])
    apply (cases "is_nothrow_move_constructible E \<or> \<not> is_copy_constructible E")
     apply (auto simp add: rs pl pl2 ca split: option.splits outcome.splits prod.splits)
    done
qed

lemma Emplace_growing_start:
  assumes "nc = (if size_m v = 0 then 1 else size_m v * 2)" "p < size_m v"
  shows "operator_new_throws E nc \<Longrightarrow> Emplace_growing E p a v = Throws bad_alloc v"
    and "\<not> operator_new_throws E nc \<Longrightarrow> Emplace_growing E p None v = Throws element_exception v"
    and "\<not> operator_new_throws E nc \<Longrightarrow> \<not> p < allocated_slots E nc \<Longrightarrow>
         Emplace_growing E p (Some x) v = Undefined"
proof -
  have lt: "size_m v < nc" and nz: "nc \<noteq> 0" using assms(1) by simp_all
  have pl: "RawMemory_plus \<lparr>buffer_m = b, capacity_m = nc\<rparr> p = Some p" for b :: "'a buffer"
    using lt assms(2) by (simp add: RawMemory_plus_def)
  show "operator_new_throws E nc \<Longrightarrow> Emplace_growing E p a v = Throws bad_alloc v"
    using nz by (simp only: Emplace_growing_def Let_def assms(1) [symmetric])
      (simp add: RawMemory_sized_eq)
  show "\<not> operator_new_throws E nc \<Longrightarrow> Emplace_growing E p None v = Throws element_exception v"
    using nz by (simp only: Emplace_growing_def Let_def assms(1) [symmetric])
      (simp add: RawMemory_sized_eq pl)
  show "\<not> operator_new_throws E nc \<Longrightarrow> \<not> p < allocated_slots E nc \<Longrightarrow>
         Emplace_growing E p (Some x) v = Undefined"
    using nz by (simp only: Emplace_growing_def Let_def assms(1) [symmetric])
      (simp add: RawMemory_sized_eq pl construct_at_def)
qed

lemma Emplace_growing_fits:
  assumes "p < size_m v" "size_m v = capacity_m (data_m v)"
    and "nc = (if size_m v = 0 then 1 else size_m v * 2)"
    and "Emplace_growing E p a v = Returns q v'"
  shows "fits_size_t E nc"
proof (rule ccontr)
  assume nf: "\<not> fits_size_t E nc"
  have nz: "size_m v \<noteq> 0" using assms(1) by simp
  then have nc: "nc = size_m v * 2" using assms(3) by simp
  let ?m = "allocated_slots E nc"
  have short: "?m \<le> size_m v" using allocated_slots_doubling [of E "size_m v"] nf nc by simp
  have n: "0 < size_m v - p" using assms(1) by simp
  note start = Emplace_growing_start [OF assms(3) assms(1), of E]
  have nt: "\<not> operator_new_throws E nc" using start(1) [of a] assms(4) by auto
  obtain x where x: "a = Some x" using start(2) [OF nt] assms(4) by (cases a) auto
  have pm: "p < ?m" using start(3) [OF nt, of x] assms(4) x by auto
  let ?dst = "(replicate ?m (None :: 'a option))[p := Some x]"
  note head = Emplace_growing_unfold [OF assms(3) nt assms(1) assms(2) pm, of x]
  show False
  proof (cases "is_nothrow_move_constructible E \<or> \<not> is_copy_constructible E")
    case True
    show False
    proof (cases "uninitialized_move_n E (buffer_m (data_m v)) 0 p ?dst 0")
      case (Returns u1 sb)
      obtain ob1 nb1 where sb: "sb = (ob1, nb1)" by (cases sb)
      have len: "length nb1 = ?m" using umove_length [OF Returns [unfolded sb]] by simp
      have "uninitialized_move_n E ob1 p (size_m v - p) nb1 (p + 1) \<noteq> Returns u2 sr" for u2 sr
        using umove_bound [of E ob1 p "size_m v - p" nb1 "p + 1" u2 sr] n len short assms(1) by auto
      then show False using assms(4) True
        unfolding x head Returns sb
        by (cases "uninitialized_move_n E ob1 p (size_m v - p) nb1 (p + 1)") simp_all
    next
      case (Throws e sb)
      then show False using assms(4) True unfolding x head by simp
    next
      case Undefined
      then show False using assms(4) True unfolding x head by simp
    qed
  next
    case False
    show False
    proof (cases "uninitialized_copy_n E (buffer_m (data_m v)) 0 p ?dst 0")
      case (Returns u1 sb)
      obtain ob1 nb1 where sb: "sb = (ob1, nb1)" by (cases sb)
      have len: "length nb1 = ?m" using ucopy_length [OF Returns [unfolded sb]] by simp
      have "uninitialized_copy_n E ob1 p (size_m v - p) nb1 (p + 1) \<noteq> Returns u2 sr" for u2 sr
        using ucopy_bound [of E ob1 p "size_m v - p" nb1 "p + 1" u2 sr] n len short assms(1) by auto
      then show False using assms(4) False
        unfolding x head Returns sb
        by (cases "uninitialized_copy_n E ob1 p (size_m v - p) nb1 (p + 1)") simp_all
    next
      case (Throws e sb)
      then show False using assms(4) False unfolding x head by simp
    next
      case Undefined
      then show False using assms(4) False unfolding x head by simp
    qed
  qed
qed

lemma Emplace_growing_cases:
  assumes "invariant v" "p < size_m v" "size_m v = Capacity v"
    and "nc = (if size_m v = 0 then 1 else size_m v * 2)" "fits_size_t E nc"
  shows "case Emplace_growing E p a v of
           Returns q v' \<Rightarrow>
             q = p \<and> \<not> operator_new_throws E nc \<and>
             (\<forall>k < size_m v. \<not> transfer_throws E (elements v ! k)) \<and>
             (\<exists>x. a = Some x \<and> elements v' = take p (elements v) @ [x] @ drop p (elements v)) \<and>
             invariant v' \<and> size_m v' = size_m v + 1 \<and> Capacity v' = nc
         | Throws e v' \<Rightarrow>
             (operator_new_throws E nc \<or> a = None \<or> (\<exists>k < size_m v. transfer_throws E (elements v ! k))) \<and>
             invariant v' \<and> size_m v' = size_m v \<and> Capacity v' = Capacity v
         | Undefined \<Rightarrow> False"
proof -
  note inv = invariantD [OF assms(1)]
  have lt: "size_m v < nc" and nz: "nc \<noteq> 0" using assms(4) by simp_all
  have cap: "size_m v = capacity_m (data_m v)" using assms(3) by (simp add: Capacity_def)
  show ?thesis
  proof (cases "operator_new_throws E nc")
    case True
    have "Emplace_growing E p a v = Throws bad_alloc v"
      using True nz by (simp only: Emplace_growing_def Let_def assms(4) [symmetric])
        (simp add: RawMemory_sized_eq)
    then show ?thesis using True assms(1) by simp
  next
    case nt: False
    have rs: "RawMemory_sized E nc = Inr \<lparr>buffer_m = replicate nc None, capacity_m = nc\<rparr>"
      using nt nz by (simp add: RawMemory_sized_fits [OF assms(5)])
    have pl: "RawMemory_plus \<lparr>buffer_m = replicate nc None, capacity_m = nc\<rparr> p = Some p"
      using lt assms(2) by (simp add: RawMemory_plus_def)
    show ?thesis
    proof (cases a)
      case None
      have "Emplace_growing E p a v = Throws element_exception v"
        using None by (simp only: Emplace_growing_def Let_def assms(4) [symmetric])
          (simp add: rs pl)
      then show ?thesis using None assms(1) by simp
    next
      case (Some x)
      let ?src = "buffer_m (data_m v)"
      let ?dst = "(replicate nc (None :: 'a option))[p := Some x]"
      let ?T = "(if is_nothrow_move_constructible E \<or> \<not> is_copy_constructible E
               then (case uninitialized_move_n E ?src 0 p ?dst 0 of
                       Undefined \<Rightarrow> Undefined
                     | Throws e sb \<Rightarrow> Throws e sb
                     | Returns u (ob1, nb1) \<Rightarrow> uninitialized_move_n E ob1 p (size_m v - p) nb1 (p + 1))
               else (case uninitialized_copy_n E ?src 0 p ?dst 0 of
                       Undefined \<Rightarrow> Undefined
                     | Throws e sb \<Rightarrow> Throws e sb
                     | Returns u (ob1, nb1) \<Rightarrow> uninitialized_copy_n E ob1 p (size_m v - p) nb1 (p + 1)))"
      have pm: "p < allocated_slots E nc" using lt assms(2) by (simp add: allocated_slots_fits [OF assms(5)])
      note head = Emplace_growing_unfold [OF assms(4) nt assms(2) cap pm, of x,
          unfolded allocated_slots_fits [OF assms(5)]]
      have a1: "size_m v \<le> length ?src" using inv(1) inv(2) by simp
      have a2: "\<And>i. i < size_m v \<Longrightarrow> ?src ! i \<noteq> None" using inv(3) by auto
      have a3: "p \<le> size_m v" using assms(2) by simp
      have a4: "size_m v < length ?dst" using lt by simp
      note et = emplace_transfer [OF a1 a2 a3 a4, of E]
      have el: "\<And>k. k < size_m v \<Longrightarrow> the (?src ! k) = elements v ! k"
        using elements_nth [OF assms(1)] by simp
      show ?thesis
      proof (cases ?T)
        case Undefined
        then show ?thesis using et by simp
      next
        case (Throws e sr)
        then have t: "\<exists>k < size_m v. transfer_throws E (the (?src ! k))" "liveness (fst sr) = liveness ?src"
          using et by simp_all
        have "\<exists>k < size_m v. transfer_throws E (elements v ! k)" using t(1) el by auto
        moreover have "Emplace_growing E p a v = Throws e (with_buffer v (fst sr))"
          unfolding Some head Throws by simp
        ultimately show ?thesis using invariant_liveness [OF assms(1) t(2)]
          by (simp add: with_buffer_def Capacity_def)
      next
        case (Returns u sr)
        then have t: "\<And>k. k < size_m v \<Longrightarrow> \<not> transfer_throws E (the (?src ! k))"
          "liveness (fst sr) = liveness ?src" "length (snd sr) = length ?dst"
          "\<And>i. i < length ?dst \<Longrightarrow> snd sr ! i =
             (if i < p then ?src ! i else if p < i \<and> i \<le> size_m v then ?src ! (i - 1) else ?dst ! i)"
          using et by simp_all
        note ls = liveness_eqD [OF t(2)]
        have "0 + size_m v \<le> length (fst sr)" using ls(1) a1 by simp
        moreover have "\<And>i. i < size_m v \<Longrightarrow> fst sr ! (0 + i) \<noteq> None"
          using ls(2) a2 a1 by simp
        ultimately obtain s' where s': "destroy_n (fst sr) 0 (size_m v) = Some s'"
          using destroy_n_live [of 0 "size_m v" "fst sr"] by blast
        have res: "Emplace_growing E p a v =
            Returns p \<lparr>data_m = \<lparr>buffer_m = snd sr, capacity_m = nc\<rparr>, size_m = size_m v + 1\<rparr>"
          unfolding Some head Returns using s' by simp
        have len: "length (snd sr) = nc" using t(3) by simp
        have pw: "snd sr ! i = (if i < p then ?src ! i else if i = p then Some x
                               else if i \<le> size_m v then ?src ! (i - 1) else None)"
          if "i < nc" for i
        proof -
          have "i < length ?dst" using that by simp
          from t(4) [OF this] show ?thesis using that by (auto simp: nth_list_update)
        qed
        note st = inserted_state [OF assms(1) a3 lt len pw]
        have nthr: "\<forall>k < size_m v. \<not> transfer_throws E (elements v ! k)" using t(1) el by simp
        show ?thesis using res nt nthr Some st by (simp add: Capacity_def)
      qed
    qed
  qed
qed

lemma Emplace_in_place_cases:
  assumes "invariant v" "p < size_m v" "size_m v \<noteq> Capacity v"
  shows "case Emplace_in_place E p a v of
           Returns q v' \<Rightarrow>
             q = p \<and>
             (\<exists>x. a = Some x \<and> \<not> move_assign_throws E x \<and>
                  elements v' = take p (elements v) @ [x] @ drop p (elements v)) \<and>
             \<not> move_ctor_may_throw E (elements v ! (size_m v - 1)) \<and>
             (\<forall>k. p \<le> k \<and> k < size_m v - 1 \<longrightarrow> \<not> move_assign_throws E (elements v ! k)) \<and>
             invariant v' \<and> size_m v' = size_m v + 1 \<and> Capacity v' = Capacity v
         | Throws e v' \<Rightarrow>
             e = element_exception \<and>
             (a = None \<or> move_ctor_may_throw E (elements v ! (size_m v - 1)) \<or>
              (\<exists>y. move_assign_throws E y)) \<and>
             size_m v' = size_m v \<and> Capacity v' = Capacity v \<and>
             length (buffer_m (data_m v')) = capacity_m (data_m v') \<and>
             (\<forall>i < size_m v'. buffer_m (data_m v') ! i \<noteq> None) \<and>
             (a = None \<or> move_ctor_may_throw E (elements v ! (size_m v - 1)) \<longrightarrow> v' = v)
         | Undefined \<Rightarrow> False"
proof (cases a)
  case None
  then show ?thesis using invariantD [OF assms(1)] by (auto simp: Emplace_in_place_def)
next
  case (Some tmp)
  note inv = invariantD [OF assms(1)]
  let ?b = "buffer_m (data_m v)"
  let ?s = "size_m v"
  obtain l where l: "?s = Suc l" using assms(2) by (cases ?s) simp_all
  have ltc: "?s < capacity_m (data_m v)" using inv(2) assms(3) by (simp add: Capacity_def)
  have pl: "RawMemory_plus (data_m v) ?s = Some ?s" using inv(2) by (simp add: RawMemory_plus_def)
  have ix: "RawMemory_index (data_m v) (?s - 1) = Some l" using ltc l by (simp add: RawMemory_index_def)
  have "l < ?s" using l by simp
  from elements_nth [OF assms(1) this] have xl: "?b ! l = Some (elements v ! l)" .
  let ?x = "elements v ! l"
  have rd: "read_at ?b l = Some ?x" using xl ltc l inv(1) by (simp add: read_at_def)
  have inb: "?s < length ?b" using ltc inv(1) by simp
  have plp: "RawMemory_plus (data_m v) p = Some p" using assms(2) inv(2) by (simp add: RawMemory_plus_def)
  have ixp: "RawMemory_index (data_m v) p = Some p" using assms(2) ltc by (simp add: RawMemory_index_def)
  let ?b1 = "?b[?s := Some ?x, l := Some (moved_from E ?x)]"
  have ple: "p \<le> l" using assms(2) l by simp
  have head: "Emplace_in_place E p a v =
     (if move_ctor_may_throw E ?x then Throws element_exception v
      else case move_backward_loop E ?b1 (l - p) l (Suc l) of
             Undefined \<Rightarrow> Undefined
           | Throws e b2 \<Rightarrow> Throws e (with_buffer v b2)
           | Returns u b2 \<Rightarrow>
               (case read_at b2 p of
                  None \<Rightarrow> Undefined
                | Some y \<Rightarrow>
                    if move_assign_throws E tmp then Throws element_exception (with_buffer v b2)
                    else Returns p ((with_buffer v (b2[p := Some tmp]))\<lparr>size_m := ?s + 1\<rparr>)))"
    using Some pl ix rd inb plp ixp ple l
    by (simp add: Emplace_in_place_def std_move_backward_def Let_def cong: outcome.case_cong)
  show ?thesis
  proof (cases "move_ctor_may_throw E ?x")
    case True
    then show ?thesis using head inv l by auto
  next
    case nmc: False
    have lv0: "liveness (?b[?s := Some ?x]) = (liveness ?b)[?s := True]" by (simp add: liveness_update)
    have "(?b[?s := Some ?x]) ! l \<noteq> None" using xl l by simp
    then have lv1: "liveness ?b1 = liveness (?b[?s := Some ?x])" by (intro liveness_update_live)
    have q1: "l - p \<le> l" by simp
    have q2: "l < length ?b1" using inb l by simp
    have q3: "?b1 ! (l - i) \<noteq> None" if "i \<le> l - p" for i
    proof (cases "i = 0")
      case True
      then show ?thesis using q2 l by simp
    next
      case False
      then have "l - i < ?s" "l - i \<noteq> l" "l - i \<noteq> ?s" using l that by arith+
      then show ?thesis using inv(3) [of "l - i"] by auto
    qed
    note mb = move_backward_loop_cases [OF q1 q2 q3, of E]
    have live1: "?b1 ! i \<noteq> None" if "i \<le> ?s" for i
    proof (cases "i = ?s \<or> i = l")
      case True
      then show ?thesis using inb l by auto
    next
      case False
      then have "i < ?s" using that by simp
      then show ?thesis using inv(3) [of i] False by auto
    qed
    have weak: "length r = capacity_m (data_m v) \<and> (\<forall>i<?s. r ! i \<noteq> None)"
      if "liveness r = liveness ?b1" for r
    proof -
      note lr = liveness_eqD [OF that]
      have "length r = capacity_m (data_m v)" using lr(1) inv(1) by simp
      moreover have "r ! i \<noteq> None" if "i < ?s" for i
        using lr(2) [of i] live1 [of i] that inb by simp
      ultimately show ?thesis by blast
    qed
    show ?thesis
    proof (cases "move_backward_loop E ?b1 (l - p) l (Suc l)")
      case Undefined
      then show ?thesis using mb by simp
    next
      case (Throws e r)
      then have t: "e = element_exception" "\<exists>k<l - p. move_assign_throws E (the (?b1 ! (l - 1 - k)))"
        "liveness r = liveness ?b1" using mb by simp_all
      have "Emplace_in_place E p a v = Throws e (with_buffer v r)" using head nmc Throws by simp
      moreover have "\<exists>y. move_assign_throws E y" using t(2) by blast
      ultimately show ?thesis using t(1) weak [OF t(3)] nmc l Some
        by (simp add: with_buffer_def Capacity_def)
    next
      case (Returns u r)
      then have t: "\<And>k. k < l - p \<Longrightarrow> \<not> move_assign_throws E (the (?b1 ! (l - 1 - k)))"
        "liveness r = liveness ?b1"
        "\<And>i. i < length ?b1 \<Longrightarrow> i \<noteq> l - (l - p) \<Longrightarrow>
            r ! i = (if l - (l - p) < i \<and> i \<le> l then ?b1 ! (i - 1) else ?b1 ! i)"
        using mb by simp_all
      note lr = liveness_eqD [OF t(2)]
      have lp: "l - (l - p) = p" using ple by simp
      have "r ! p \<noteq> None" using lr(2) [of p] live1 [of p] assms(2) inb by simp
      then obtain y where y: "read_at r p = Some y" using lr(1) assms(2) inb by (auto simp: read_at_def)
      show ?thesis
      proof (cases "move_assign_throws E tmp")
        case True
        have "Emplace_in_place E p a v = Throws element_exception (with_buffer v r)"
          using head nmc Returns y True by simp
        moreover have "\<exists>y. move_assign_throws E y" using True by blast
        ultimately show ?thesis using weak [OF t(2)] nmc l Some
          by (simp add: with_buffer_def Capacity_def)
      next
        case nma: False
        let ?r = "r[p := Some tmp]"
        have res: "Emplace_in_place E p a v = Returns p ((with_buffer v ?r)\<lparr>size_m := ?s + 1\<rparr>)"
          using head nmc Returns y nma by simp
        have len: "length ?r = capacity_m (data_m v)" using lr(1) inv(1) by simp
        have pw: "?r ! i = (if i < p then ?b ! i else if i = p then Some tmp
                            else if i \<le> ?s then ?b ! (i - 1) else None)"
          if "i < capacity_m (data_m v)" for i
        proof (cases "i = p")
          case True
          then show ?thesis using that len by simp
        next
          case False
          have il: "i < length ?b1" using that inv(1) by simp
          have ti: "r ! i = (if p < i \<and> i \<le> l then ?b1 ! (i - 1) else ?b1 ! i)"
            using t(3) [OF il] False lp by simp
          show ?thesis
          proof (cases "i < p")
            case True
            then have "i \<noteq> ?s" "i \<noteq> l" using assms(2) l by simp_all
            then show ?thesis using ti True False by simp
          next
            case ge: False
            then have gt: "p < i" using False by simp
            show ?thesis
            proof (cases "i \<le> l")
              case True
              then have "i - 1 \<noteq> ?s" "i - 1 \<noteq> l" using gt l by arith+
              then show ?thesis using ti gt True False l by simp
            next
              case gl: False
              show ?thesis
              proof (cases "i = ?s")
                case True
                then show ?thesis using ti gl gt False l inb xl by simp
              next
                case ns: False
                then have big: "?s < i" "i \<noteq> l" using gl l by simp_all
                then have "?s \<le> i" by simp
                from inv(4) [OF this that] show ?thesis using ti gl gt False big ns by simp
              qed
            qed
          qed
        qed
        have ples: "p \<le> ?s" using assms(2) by simp
        note st = inserted_state [OF assms(1) ples ltc len pw]
        have v': "(with_buffer v ?r)\<lparr>size_m := ?s + 1\<rparr>
                    = \<lparr>data_m = \<lparr>buffer_m = ?r, capacity_m = capacity_m (data_m v)\<rparr>, size_m = ?s + 1\<rparr>"
          by (simp add: with_buffer_def)
        have nthr: "\<forall>k. p \<le> k \<and> k < ?s - 1 \<longrightarrow> \<not> move_assign_throws E (elements v ! k)"
        proof (intro allI impI)
          fix k assume k: "p \<le> k \<and> k < ?s - 1"
          then have kk: "l - 1 - k < l - p" "l - 1 - (l - 1 - k) = k" using l by arith+
          have "k \<noteq> ?s" "k \<noteq> l" "k < ?s" using k l by simp_all
          then have "the (?b1 ! k) = elements v ! k" using elements_nth [OF assms(1), of k] by simp
          then show "\<not> move_assign_throws E (elements v ! k)" using t(1) [OF kk(1)] kk(2) by simp
        qed
        have l1: "?s - 1 = l" using l by simp
        show ?thesis unfolding res v' using st nma Some nthr nmc l1 by (simp add: Capacity_def)
      qed
    qed
  qed
qed

lemma Emplace_returns:
  assumes "invariant v" "p \<le> size_m v" "Emplace E p a v = Returns q v'"
  shows "q = p \<and> (\<exists>x. a = Some x \<and> elements v' = take p (elements v) @ [x] @ drop p (elements v)) \<and>
         invariant v' \<and> size_m v' = size_m v + 1"
proof (cases "p = size_m v")
  case True
  then have "EmplaceBack E a v = Returns q v'" using assms(3) by (simp add: Emplace_def)
  from EmplaceBack_returns [OF assms(1) this] show ?thesis
    using True elements_length [OF assms(1)] by auto
next
  case False
  then have lt: "p < size_m v" using assms(2) by simp
  show ?thesis
  proof (cases "size_m v = Capacity v")
    case True
    then have g: "Emplace_growing E p a v = Returns q v'" using assms(3) lt by (simp add: Emplace_def)
    have cap: "size_m v = capacity_m (data_m v)" using True by (simp add: Capacity_def)
    note fit = Emplace_growing_fits [OF lt cap refl g]
    show ?thesis using g Emplace_growing_cases [OF assms(1) lt True refl fit, where a = a] by auto
  next
    case ne: False
    then have "Emplace_in_place E p a v = Returns q v'" using assms(3) lt by (simp add: Emplace_def)
    then show ?thesis using Emplace_in_place_cases [OF assms(1) lt ne, where E = E and a = a] by auto
  qed
qed





subsection \<open>The invariant after an exception in \<^verbatim>\<open>Emplace\<close>\<close>

text \<open>
  Claim C5 says that in every state that the public operations reach, the size is at
  most the capacity and exactly the slots \<open>[0, size)\<close> hold live elements. The branch of
  \<^verbatim>\<open>Emplace\<close> that shifts in place constructs a new object in slot \<open>size\<close> from the last
  element, then move-assigns the elements behind the position one slot up, and increments
  \<^verbatim>\<open>size_\<close> only at the end. When one of the assignments throws, the exception leaves the
  function with the object in slot \<open>size\<close> constructed and \<^verbatim>\<open>size_\<close> unchanged: a live
  object outside \<open>[0, size)\<close> that no later call destroys. The element type here has a
  move assignment that throws; the vector \<open>[1, 2, 3]\<close> of capacity 4 is built by three
  calls of \<^verbatim>\<open>PushBack\<close>; \<^verbatim>\<open>Emplace\<close> at position 0 throws and leaves the slots
  0, 1, 2 and 3 live with size 3.
\<close>

theorem Emplace_exception_leaves_live_slot:
  "appends throwing_assign_type [(False, 1), (False, 2), (False, 3)] Vector_default = Some vec_123 \<and>
   invariant vec_123 \<and>
   Emplace throwing_assign_type 0 (Some 0) vec_123 = Throws element_exception vec_123_live4 \<and>
   size_m vec_123_live4 = 3 \<and> Capacity vec_123_live4 = 4 \<and>
   live_slots vec_123_live4 = [0, 1, 2, 3] \<and>
   \<not> invariant vec_123_live4"
  by code_simp

subsection \<open>Copy assignment, \<^verbatim>\<open>Clear\<close> and the constructors\<close>

lemma copy_assign_loop_cases:
  assumes "length (buffer_m d) = capacity_m d" "length (buffer_m rd) = capacity_m rd"
    and "index + k \<le> capacity_m d" "index + k \<le> capacity_m rd"
    and "\<And>i. i < k \<Longrightarrow> buffer_m d ! (index + i) \<noteq> None"
    and "\<And>i. i < k \<Longrightarrow> buffer_m rd ! (index + i) \<noteq> None"
  shows "case copy_assign_loop E d rd index k of
           Returns u d' \<Rightarrow>
             capacity_m d' = capacity_m d \<and> liveness (buffer_m d') = liveness (buffer_m d) \<and>
             (\<forall>i<capacity_m d. buffer_m d' ! i =
                (if index \<le> i \<and> i < index + k then buffer_m rd ! i else buffer_m d ! i))
         | Throws e d' \<Rightarrow>
             e = element_exception \<and> capacity_m d' = capacity_m d \<and>
             liveness (buffer_m d') = liveness (buffer_m d)
         | Undefined \<Rightarrow> False"
  using assms
proof (induction k arbitrary: d index)
  case 0
  then show ?case by auto
next
  case (Suc k)
  have i1: "RawMemory_index d index = Some index" using Suc.prems(3) by (simp add: RawMemory_index_def)
  have i2: "RawMemory_index rd index = Some index" using Suc.prems(4) by (simp add: RawMemory_index_def)
  have "buffer_m rd ! (index + 0) \<noteq> None" by (rule Suc.prems(6)) simp
  then obtain x where x: "buffer_m rd ! index = Some x" by auto
  have "buffer_m d ! (index + 0) \<noteq> None" by (rule Suc.prems(5)) simp
  then obtain y where y: "buffer_m d ! index = Some y" by auto
  have r1: "read_at (buffer_m rd) index = Some x" using x Suc.prems(2,4) by (simp add: read_at_def)
  have r2: "read_at (buffer_m d) index = Some y" using y Suc.prems(1,3) by (simp add: read_at_def)
  let ?d1 = "d\<lparr>buffer_m := (buffer_m d)[index := Some x]\<rparr>"
  have head: "copy_assign_loop E d rd index (Suc k) =
     (if copy_assign_throws E x then Throws element_exception d
      else copy_assign_loop E ?d1 rd (Suc index) k)"
    using i1 i2 r1 r2 by simp
  show ?case
  proof (cases "copy_assign_throws E x")
    case True
    then show ?thesis using head by simp
  next
    case False
    have lv: "liveness (buffer_m ?d1) = liveness (buffer_m d)"
      using y by (simp add: liveness_update_live)
    have p1: "length (buffer_m ?d1) = capacity_m ?d1" using Suc.prems(1) by simp
    have p3: "Suc index + k \<le> capacity_m ?d1" using Suc.prems(3) by simp
    have p4: "Suc index + k \<le> capacity_m rd" using Suc.prems(4) by simp
    have p5: "buffer_m ?d1 ! (Suc index + i) \<noteq> None" if "i < k" for i
      using Suc.prems(5) [of "Suc i"] that by simp
    have p6: "buffer_m rd ! (Suc index + i) \<noteq> None" if "i < k" for i
      using Suc.prems(6) [of "Suc i"] that by simp
    note ih = Suc.IH [OF p1 Suc.prems(2) p3 p4 p5 p6]
    have eq: "copy_assign_loop E d rd index (Suc k) = copy_assign_loop E ?d1 rd (Suc index) k"
      using head False by simp
    show ?thesis
    proof (cases "copy_assign_loop E ?d1 rd (Suc index) k")
      case Undefined
      then show ?thesis using ih by simp
    next
      case (Throws e d')
      then show ?thesis using ih eq lv by simp
    next
      case (Returns u d')
      then have t: "capacity_m d' = capacity_m d" "liveness (buffer_m d') = liveness (buffer_m ?d1)"
        "\<And>i. i < capacity_m d \<Longrightarrow> buffer_m d' ! i =
            (if Suc index \<le> i \<and> i < Suc index + k then buffer_m rd ! i else buffer_m ?d1 ! i)"
        using ih by simp_all
      have "\<forall>i<capacity_m d. buffer_m d' ! i =
                (if index \<le> i \<and> i < index + Suc k then buffer_m rd ! i else buffer_m d ! i)"
      proof (intro allI impI)
        fix i assume i: "i < capacity_m d"
        show "buffer_m d' ! i = (if index \<le> i \<and> i < index + Suc k then buffer_m rd ! i else buffer_m d ! i)"
        proof (cases "i = index")
          case True
          then show ?thesis using t(3) [OF i] x i Suc.prems(1) by simp
        next
          case False
          then show ?thesis using t(3) [OF i] by auto
        qed
      qed
      then show ?thesis using eq Returns t(1) t(2) lv by simp
    qed
  qed
qed

lemma Clear_eq:
  assumes "invariant v"
  shows "\<exists>v'. Clear v = Returns () v' \<and> invariant v' \<and> size_m v' = 0 \<and> Capacity v' = Capacity v"
proof -
  note inv = invariantD [OF assms]
  have "0 + size_m v \<le> length (buffer_m (data_m v))" using inv(1) inv(2) by simp
  moreover have "\<And>i. i < size_m v \<Longrightarrow> buffer_m (data_m v) ! (0 + i) \<noteq> None" using inv(3) by auto
  ultimately obtain b where b: "destroy_n (buffer_m (data_m v)) 0 (size_m v) = Some b"
    "length b = length (buffer_m (data_m v))"
    "\<And>i. i < length (buffer_m (data_m v)) \<Longrightarrow>
       b ! i = (if 0 \<le> i \<and> i < 0 + size_m v then None else buffer_m (data_m v) ! i)"
    using destroy_n_live [of 0 "size_m v" "buffer_m (data_m v)"] by blast
  have c: "Clear v = Returns () ((with_buffer v b)\<lparr>size_m := 0\<rparr>)" using b(1) by (simp add: Clear_def)
  have pw: "b ! i = (if 0 \<le> i \<and> i < size_m v then None else buffer_m (data_m v) ! i)"
    if "i < length b" for i using b(3) [of i] that b(2) by simp
  have z: "0 \<le> size_m v" by simp
  note st = shrunk_state [OF assms z b(2) pw]
  show ?thesis using c st(1) by (simp add: with_buffer_def Capacity_def)
qed

lemma fresh_invariant:
  assumes "length r = n" "\<And>i. i < n \<Longrightarrow> r ! i \<noteq> None"
  shows "invariant \<lparr>data_m = \<lparr>buffer_m = r, capacity_m = n\<rparr>, size_m = n\<rparr>"
  by (rule invariantI) (use assms in simp_all)

lemma Vector_sized_cases:
  "case Vector_sized E n of
     Returns v u \<Rightarrow> invariant v \<and> size_m v = n \<and> Capacity v = n \<and>
                   (\<exists>z. (n = 0 \<or> value_initialized E = Some z) \<and> elements v = replicate n z)
   | Throws e u \<Rightarrow> True
   | Undefined \<Rightarrow> \<not> fits_size_t E n"
proof (cases "n \<noteq> 0 \<and> operator_new_throws E n")
  case True
  then show ?thesis by (simp add: Vector_sized_def RawMemory_sized_eq)
next
  case False
  show ?thesis
  proof (cases "fits_size_t E n")
    case nf: False
    have nz: "0 < n" using nf fits_size_t_1(3) [of E] by (cases "n = 0") auto
    have nt: "\<not> operator_new_throws E n" using False nz by simp
    have head: "Vector_sized E n =
       (case uninitialized_value_construct_n E (replicate (allocated_slots E n) None) 0 n of
          Returns u b \<Rightarrow> Returns \<lparr>data_m = \<lparr>buffer_m = b, capacity_m = n\<rparr>, size_m = n\<rparr> ()
        | Throws e b \<Rightarrow> Throws e ()
        | Undefined \<Rightarrow> Undefined)"
      using nt by (simp add: Vector_sized_def RawMemory_sized_eq cong: outcome.case_cong)
    have "length (replicate (allocated_slots E n) (None :: 'a option)) < 0 + n"
      using allocated_slots_overflow [OF nf] by simp
    from uvc_short [OF nz this]
    show ?thesis using head nf
      by (cases "uninitialized_value_construct_n E (replicate (allocated_slots E n) None) 0 n") simp_all
  next
    case fit: True
  have rs: "RawMemory_sized E n = Inr \<lparr>buffer_m = replicate n None, capacity_m = n\<rparr>"
    using False by (auto simp: RawMemory_sized_fits [OF fit])
  have head: "Vector_sized E n =
     (case uninitialized_value_construct_n E (replicate n None) 0 n of
        Returns u b \<Rightarrow> Returns \<lparr>data_m = \<lparr>buffer_m = b, capacity_m = n\<rparr>, size_m = n\<rparr> ()
      | Throws e b \<Rightarrow> Throws e ()
      | Undefined \<Rightarrow> Undefined)"
    by (simp add: Vector_sized_def rs cong: outcome.case_cong)
  have bound: "0 + n \<le> length (replicate n (None :: 'a option))" by simp
  show ?thesis
  proof (cases "value_initialized E")
    case None
    show ?thesis
    proof (cases "n = 0")
      case True
      then show ?thesis using head invariant_default
        by (simp add: Capacity_def elements_def invariant_def live_slots_def)
    next
      case nz: False
      from uvc_throws [OF None bound nz] show ?thesis using head by simp
    qed
  next
    case (Some z)
    from uvc_returns [OF Some bound] obtain r where
      r: "uninitialized_value_construct_n E (replicate n None) 0 n = Returns () r" "length r = n"
      "\<And>i. i < n \<Longrightarrow> r ! i = (if 0 \<le> i \<and> i < 0 + n then Some z else replicate n None ! i)"
      by auto
    have pw: "\<And>i. i < n \<Longrightarrow> r ! i = Some z" using r(3) by simp
    have res: "Vector_sized E n = Returns \<lparr>data_m = \<lparr>buffer_m = r, capacity_m = n\<rparr>, size_m = n\<rparr> ()"
      using head r(1) by simp
    have inv: "invariant \<lparr>data_m = \<lparr>buffer_m = r, capacity_m = n\<rparr>, size_m = n\<rparr>"
      using pw by (intro fresh_invariant [OF r(2)]) simp
    have "map the (take n r) = replicate n z"
      using r(2) pw by (intro nth_equalityI) simp_all
    then have el: "elements \<lparr>data_m = \<lparr>buffer_m = r, capacity_m = n\<rparr>, size_m = n\<rparr> = replicate n z"
      by (simp add: elements_def)
    show ?thesis using res inv el Some by (auto simp: Capacity_def)
  qed
  qed
qed

lemma Vector_copy_cases:
  assumes "invariant w"
  shows "case Vector_copy E w of
     Returns v u \<Rightarrow> invariant v \<and> size_m v = size_m w \<and> Capacity v = size_m w \<and>
                   elements v = elements w
   | Throws e u \<Rightarrow> True
   | Undefined \<Rightarrow> \<not> fits_size_t E (size_m w)"
proof (cases "size_m w \<noteq> 0 \<and> operator_new_throws E (size_m w)")
  case True
  then show ?thesis by (simp add: Vector_copy_def RawMemory_sized_eq)
next
  case False
  note inv = invariantD [OF assms]
  let ?n = "size_m w"
  let ?src = "buffer_m (data_m w)"
  show ?thesis
  proof (cases "fits_size_t E ?n")
    case nf: False
    let ?m = "allocated_slots E ?n"
    have nz: "0 < ?n" using nf fits_size_t_1(3) [of E] by (cases "?n = 0") auto
    have nt: "\<not> operator_new_throws E ?n" using False nz by simp
    have head: "Vector_copy E w =
       (case uninitialized_copy_n E ?src 0 ?n (replicate ?m None) 0 of
          Returns u sr \<Rightarrow> Returns \<lparr>data_m = \<lparr>buffer_m = snd sr, capacity_m = ?n\<rparr>, size_m = ?n\<rparr> ()
        | Throws e sr \<Rightarrow> Throws e ()
        | Undefined \<Rightarrow> Undefined)"
      using nt by (simp add: Vector_copy_def RawMemory_sized_eq split: outcome.splits prod.splits)
    have "uninitialized_copy_n E ?src 0 ?n (replicate ?m None) 0 \<noteq> Returns u sr" for u sr
      using ucopy_bound [of E ?src 0 ?n "replicate ?m None" 0 u sr] nz allocated_slots_overflow [OF nf]
      by auto
    then show ?thesis using head nf
      by (cases "uninitialized_copy_n E ?src 0 ?n (replicate ?m None) 0") auto
  next
    case fit: True
  have rs: "RawMemory_sized E ?n = Inr \<lparr>buffer_m = replicate ?n None, capacity_m = ?n\<rparr>"
    using False by (auto simp: RawMemory_sized_fits [OF fit])
  have head: "Vector_copy E w =
     (case uninitialized_copy_n E ?src 0 ?n (replicate ?n None) 0 of
        Returns u sr \<Rightarrow> Returns \<lparr>data_m = \<lparr>buffer_m = snd sr, capacity_m = ?n\<rparr>, size_m = ?n\<rparr> ()
      | Throws e sr \<Rightarrow> Throws e ()
      | Undefined \<Rightarrow> Undefined)"
    by (simp add: Vector_copy_def rs split: outcome.splits prod.splits)
  have a1: "0 + ?n \<le> length ?src" using inv(1) inv(2) by simp
  have a2: "\<And>i. i < ?n \<Longrightarrow> ?src ! (0 + i) \<noteq> None" using inv(3) by auto
  have a3: "0 + ?n \<le> length (replicate ?n (None :: 'a option))" by simp
  note sp = ucopy_spec [OF a1 a2 a3, of E]
  show ?thesis
  proof (cases "uninitialized_copy_n E ?src 0 ?n (replicate ?n None) 0")
    case Undefined
    then show ?thesis using sp by simp
  next
    case (Throws e sr)
    then show ?thesis using head by simp
  next
    case (Returns u sr)
    then have t: "length (snd sr) = ?n"
      "\<And>i. i < ?n \<Longrightarrow> snd sr ! i = (if 0 \<le> i \<and> i < 0 + ?n then ?src ! (0 + (i - 0)) else replicate ?n None ! i)"
      using sp by simp_all
    have pw: "\<And>i. i < ?n \<Longrightarrow> snd sr ! i = ?src ! i" using t(2) by simp
    have res: "Vector_copy E w = Returns \<lparr>data_m = \<lparr>buffer_m = snd sr, capacity_m = ?n\<rparr>, size_m = ?n\<rparr> ()"
      using head Returns by simp
    have i1: "invariant \<lparr>data_m = \<lparr>buffer_m = snd sr, capacity_m = ?n\<rparr>, size_m = ?n\<rparr>"
    proof (rule fresh_invariant [OF t(1)])
      fix i assume "i < ?n"
      then show "snd sr ! i \<noteq> None" using pw [of i] inv(3) [of i] by auto
    qed
    have "map the (take ?n (snd sr)) = elements w"
      using t(1) pw by (intro elements_eq_prefix [OF assms]) simp_all
    then have el: "elements \<lparr>data_m = \<lparr>buffer_m = snd sr, capacity_m = ?n\<rparr>, size_m = ?n\<rparr> = elements w"
      by (simp add: elements_def)
    show ?thesis using res i1 el by (simp add: Capacity_def)
  qed
  qed
qed

lemma data_with_buffer:
  assumes "capacity_m d = capacity_m (data_m v)"
  shows "v\<lparr>data_m := d\<rparr> = with_buffer v (buffer_m d)"
    and "\<lparr>data_m = d\<lparr>buffer_m := b\<rparr>, size_m = k\<rparr> = (with_buffer v b)\<lparr>size_m := k\<rparr>"
  using assms by (simp_all add: with_buffer_def)

lemma assigned_state:
  assumes "invariant v" "invariant rhs" "size_m rhs \<le> capacity_m (data_m v)"
    and "length b = capacity_m (data_m v)"
    and "\<And>i. i < capacity_m (data_m v) \<Longrightarrow>
           b ! i = (if i < size_m rhs then buffer_m (data_m rhs) ! i else None)"
  shows "invariant ((with_buffer v b)\<lparr>size_m := size_m rhs\<rparr>)"
    and "elements ((with_buffer v b)\<lparr>size_m := size_m rhs\<rparr>) = elements rhs"
proof -
  note ri = invariantD [OF assms(2)]
  show "invariant ((with_buffer v b)\<lparr>size_m := size_m rhs\<rparr>)"
  proof (rule invariantI)
    fix i assume "i < size_m ((with_buffer v b)\<lparr>size_m := size_m rhs\<rparr>)"
    then have i: "i < size_m rhs" by simp
    then have "i < capacity_m (data_m v)" using assms(3) by simp
    from assms(5) [OF this] ri(3) [OF i]
    show "buffer_m (data_m ((with_buffer v b)\<lparr>size_m := size_m rhs\<rparr>)) ! i \<noteq> None"
      using i by (auto simp: with_buffer_def)
  next
    fix i assume "size_m ((with_buffer v b)\<lparr>size_m := size_m rhs\<rparr>) \<le> i"
      "i < capacity_m (data_m ((with_buffer v b)\<lparr>size_m := size_m rhs\<rparr>))"
    then have i: "size_m rhs \<le> i" "i < capacity_m (data_m v)" by (simp_all add: with_buffer_def)
    from assms(5) [OF i(2)] i(1)
    show "buffer_m (data_m ((with_buffer v b)\<lparr>size_m := size_m rhs\<rparr>)) ! i = None"
      by (simp add: with_buffer_def)
  qed (use assms(3) assms(4) in \<open>simp_all add: with_buffer_def\<close>)
  have "take (size_m rhs) b = take (size_m rhs) (buffer_m (data_m rhs))"
    using assms(3) assms(4) assms(5) ri(1) ri(2) by (intro nth_take_lemma) simp_all
  then show "elements ((with_buffer v b)\<lparr>size_m := size_m rhs\<rparr>) = elements rhs"
    by (simp add: elements_def with_buffer_def)
qed

lemma copy_assign_other_cases:
  assumes "invariant v" "invariant rhs"
  shows "case copy_assign_other E v rhs of
           Returns u v' \<Rightarrow> invariant v' \<and> size_m v' = size_m rhs \<and> elements v' = elements rhs
         | Throws e v' \<Rightarrow> invariant v' \<and> size_m v' = size_m v \<and> Capacity v' = Capacity v
         | Undefined \<Rightarrow> \<not> fits_size_t E (size_m rhs)"
proof -
  note vi = invariantD [OF assms(1)]
  note ri = invariantD [OF assms(2)]
  let ?c = "capacity_m (data_m v)"
  consider (grow) "size_m rhs > ?c"
    | (shrink) "size_m rhs \<le> ?c" "size_m v > size_m rhs"
    | (extend) "size_m rhs \<le> ?c" "size_m v \<le> size_m rhs"
    using not_le by blast
  then show ?thesis
  proof cases
    case grow
    have d1: "0 + size_m v \<le> length (buffer_m (data_m v))" using vi(1) vi(2) by simp
    have d2: "\<And>i. i < size_m v \<Longrightarrow> buffer_m (data_m v) ! (0 + i) \<noteq> None" using vi(3) by auto
    from destroy_n_live [OF d1 d2] obtain b where "destroy_n (buffer_m (data_m v)) 0 (size_m v) = Some b"
      by blast
    then have ds: "Vector_destructor v = Some ()" by (simp add: Vector_destructor_def)
    have head: "copy_assign_other E v rhs =
       (case Vector_copy E rhs of
           Undefined \<Rightarrow> Undefined
         | Throws e u \<Rightarrow> Throws e v
         | Returns rhs_copy u \<Rightarrow> Returns () rhs_copy)"
      using grow ds by (simp add: copy_assign_other_def Vector_Swap_eq cong: outcome.case_cong)
    note vc = Vector_copy_cases [OF assms(2), of E]
    show ?thesis
    proof (cases "Vector_copy E rhs")
      case Undefined
      then show ?thesis using head vc by simp
    next
      case (Throws e u)
      then show ?thesis using head assms(1) by simp
    next
      case (Returns c u)
      then show ?thesis using head vc by simp
    qed
  next
    case shrink
    have l1: "0 + size_m rhs \<le> capacity_m (data_m v)" using shrink(1) by simp
    have l2: "0 + size_m rhs \<le> capacity_m (data_m rhs)" using ri(2) by simp
    have l3: "buffer_m (data_m v) ! (0 + i) \<noteq> None" if "i < size_m rhs" for i
      using vi(3) [of i] that shrink(2) by auto
    have l4: "buffer_m (data_m rhs) ! (0 + i) \<noteq> None" if "i < size_m rhs" for i
      using ri(3) [of i] that by auto
    note lp = copy_assign_loop_cases [OF vi(1) ri(1) l1 l2 l3 l4, of E]
    have head: "copy_assign_other E v rhs =
        (case copy_assign_loop E (data_m v) (data_m rhs) 0 (size_m rhs) of
           Undefined \<Rightarrow> Undefined
         | Throws e d \<Rightarrow> Throws e (v\<lparr>data_m := d\<rparr>)
         | Returns u d \<Rightarrow>
             (case RawMemory_plus d (size_m rhs) of
                None \<Rightarrow> Undefined
              | Some p \<Rightarrow>
                  (case destroy_n (buffer_m d) p (size_m v - size_m rhs) of
                     None \<Rightarrow> Undefined
                   | Some b \<Rightarrow>
                       Returns () \<lparr>data_m = d\<lparr>buffer_m := b\<rparr>, size_m = size_m rhs\<rparr>)))"
      using shrink by (simp add: copy_assign_other_def)
    show ?thesis
    proof (cases "copy_assign_loop E (data_m v) (data_m rhs) 0 (size_m rhs)")
      case Undefined
      then show ?thesis using lp by simp
    next
      case (Throws e d)
      then have t: "capacity_m d = ?c" "liveness (buffer_m d) = liveness (buffer_m (data_m v))"
        using lp by simp_all
      have "copy_assign_other E v rhs = Throws e (with_buffer v (buffer_m d))"
        using head Throws data_with_buffer(1) [OF t(1)] by simp
      then show ?thesis using invariant_liveness [OF assms(1) t(2)]
        by (simp add: with_buffer_def Capacity_def)
    next
      case (Returns u d)
      then have t: "capacity_m d = ?c" "liveness (buffer_m d) = liveness (buffer_m (data_m v))"
        "\<And>i. i < ?c \<Longrightarrow> buffer_m d ! i =
            (if 0 \<le> i \<and> i < 0 + size_m rhs then buffer_m (data_m rhs) ! i else buffer_m (data_m v) ! i)"
        using lp by simp_all
      note ld = liveness_eqD [OF t(2)]
      have pl: "RawMemory_plus d (size_m rhs) = Some (size_m rhs)"
        using shrink(1) t(1) by (simp add: RawMemory_plus_def)
      have e1: "size_m rhs + (size_m v - size_m rhs) \<le> length (buffer_m d)"
        using shrink(2) ld(1) vi(1) vi(2) by simp
      have e2: "buffer_m d ! (size_m rhs + i) \<noteq> None" if "i < size_m v - size_m rhs" for i
      proof -
        have a: "size_m rhs + i < size_m v" using that by simp
        then have "size_m rhs + i < length (buffer_m (data_m v))" using vi(1) vi(2) by simp
        from ld(2) [OF this] vi(3) [OF a] show ?thesis by simp
      qed
      from destroy_n_live [OF e1 e2] obtain b where
        b: "destroy_n (buffer_m d) (size_m rhs) (size_m v - size_m rhs) = Some b"
        "length b = length (buffer_m d)"
        "\<And>i. i < length (buffer_m d) \<Longrightarrow>
           b ! i = (if size_m rhs \<le> i \<and> i < size_m rhs + (size_m v - size_m rhs) then None
                    else buffer_m d ! i)" by blast
      have res: "copy_assign_other E v rhs = Returns () ((with_buffer v b)\<lparr>size_m := size_m rhs\<rparr>)"
        using head Returns pl b(1) data_with_buffer(2) [OF t(1)] by simp
      have lb: "length b = ?c" using b(2) ld(1) vi(1) by simp
      have pw: "b ! i = (if i < size_m rhs then buffer_m (data_m rhs) ! i else None)" if "i < ?c" for i
      proof -
        have il: "i < length (buffer_m d)" using that ld(1) vi(1) by simp
        show ?thesis
        proof (cases "i < size_m rhs")
          case True
          then show ?thesis using b(3) [OF il] t(3) [OF that] by simp
        next
          case False
          show ?thesis
          proof (cases "i < size_m v")
            case True
            then show ?thesis using b(3) [OF il] False shrink(2) by simp
          next
            case ge: False
            then have "size_m v \<le> i" by simp
            from vi(4) [OF this that] show ?thesis using b(3) [OF il] t(3) [OF that] False ge by simp
          qed
        qed
      qed
      note st = assigned_state [OF assms shrink(1) lb pw]
      show ?thesis using res st by simp
    qed
  next
    case extend
    have l1: "0 + size_m v \<le> capacity_m (data_m v)" using vi(2) by simp
    have l2: "0 + size_m v \<le> capacity_m (data_m rhs)" using ri(2) extend(2) by simp
    have l3: "buffer_m (data_m v) ! (0 + i) \<noteq> None" if "i < size_m v" for i
      using vi(3) [of i] that by auto
    have l4: "buffer_m (data_m rhs) ! (0 + i) \<noteq> None" if "i < size_m v" for i
      using ri(3) [of i] that extend(2) by auto
    note lp = copy_assign_loop_cases [OF vi(1) ri(1) l1 l2 l3 l4, of E]
    have ns: "\<not> size_m rhs < size_m v" using extend(2) by simp
    have pr: "RawMemory_plus (data_m rhs) (size_m v) = Some (size_m v)"
      using l2 by (simp add: RawMemory_plus_def)
    have head: "copy_assign_other E v rhs =
        (case copy_assign_loop E (data_m v) (data_m rhs) 0 (size_m v) of
           Undefined \<Rightarrow> Undefined
         | Throws e d \<Rightarrow> Throws e (v\<lparr>data_m := d\<rparr>)
         | Returns u d \<Rightarrow>
             (case RawMemory_plus d (size_m v) of
                None \<Rightarrow> Undefined
              | Some p \<Rightarrow>
                  (case uninitialized_copy_n E (buffer_m (data_m rhs)) (size_m v) (size_m rhs - size_m v)
                          (buffer_m d) p of
                     Undefined \<Rightarrow> Undefined
                   | Throws e sb \<Rightarrow> Throws e \<lparr>data_m = d\<lparr>buffer_m := snd sb\<rparr>, size_m = size_m v\<rparr>
                   | Returns u' sb \<Rightarrow>
                       Returns () \<lparr>data_m = d\<lparr>buffer_m := snd sb\<rparr>, size_m = size_m rhs\<rparr>)))"
      using extend ns pr by (simp add: copy_assign_other_def split: outcome.splits prod.splits option.splits)
    show ?thesis
    proof (cases "copy_assign_loop E (data_m v) (data_m rhs) 0 (size_m v)")
      case Undefined
      then show ?thesis using lp by simp
    next
      case (Throws e d)
      then have t: "capacity_m d = ?c" "liveness (buffer_m d) = liveness (buffer_m (data_m v))"
        using lp by simp_all
      have "copy_assign_other E v rhs = Throws e (with_buffer v (buffer_m d))"
        using head Throws data_with_buffer(1) [OF t(1)] by simp
      then show ?thesis using invariant_liveness [OF assms(1) t(2)]
        by (simp add: with_buffer_def Capacity_def)
    next
      case (Returns u d)
      then have t: "capacity_m d = ?c" "liveness (buffer_m d) = liveness (buffer_m (data_m v))"
        "\<And>i. i < ?c \<Longrightarrow> buffer_m d ! i =
            (if 0 \<le> i \<and> i < 0 + size_m v then buffer_m (data_m rhs) ! i else buffer_m (data_m v) ! i)"
        using lp by simp_all
      note ld = liveness_eqD [OF t(2)]
      have ldc: "length (buffer_m d) = ?c" using ld(1) vi(1) by simp
      have pl: "RawMemory_plus d (size_m v) = Some (size_m v)"
        using vi(2) t(1) by (simp add: RawMemory_plus_def)
      let ?n = "size_m rhs - size_m v"
      have c1: "size_m v + ?n \<le> length (buffer_m (data_m rhs))" using extend(2) ri(1) ri(2) by simp
      have c2: "buffer_m (data_m rhs) ! (size_m v + i) \<noteq> None" if "i < ?n" for i
        using ri(3) [of "size_m v + i"] that by auto
      have c3: "size_m v + ?n \<le> length (buffer_m d)" using extend ldc by simp
      note sp = ucopy_spec [OF c1 c2 c3, of E]
      have head2: "copy_assign_other E v rhs =
         (case uninitialized_copy_n E (buffer_m (data_m rhs)) (size_m v) ?n (buffer_m d) (size_m v) of
                     Undefined \<Rightarrow> Undefined
                   | Throws e sb \<Rightarrow> Throws e ((with_buffer v (snd sb))\<lparr>size_m := size_m v\<rparr>)
                   | Returns u' sb \<Rightarrow> Returns () ((with_buffer v (snd sb))\<lparr>size_m := size_m rhs\<rparr>))"
        using head Returns pl data_with_buffer(2) [OF t(1)] by (simp cong: outcome.case_cong)
      show ?thesis
      proof (cases "uninitialized_copy_n E (buffer_m (data_m rhs)) (size_m v) ?n (buffer_m d) (size_m v)")
        case Undefined
        then show ?thesis using sp by simp
      next
        case (Throws e sb)
        then have "\<exists>k<?n. copy_ctor_throws E (the (buffer_m (data_m rhs) ! (size_m v + k)))"
          using sp by simp
        then obtain k where k: "k < ?n" "copy_ctor_throws E (the (buffer_m (data_m rhs) ! (size_m v + k)))"
          by blast
        from ucopy_throws [OF c1 c2 c3 k] obtain r where
          r: "uninitialized_copy_n E (buffer_m (data_m rhs)) (size_m v) ?n (buffer_m d) (size_m v)
                = Throws element_exception (buffer_m (data_m rhs), r)"
          "length r = length (buffer_m d)"
          "\<And>i. i < length (buffer_m d) \<Longrightarrow>
              r ! i = buffer_m d ! i \<or> (size_m v \<le> i \<and> i < size_m v + ?n \<and> r ! i = None)"
          by blast
        have sb: "snd sb = r" using r(1) Throws by simp
        have "liveness r = liveness (buffer_m (data_m v))"
        proof (rule nth_equalityI)
          show "length (liveness r) = length (liveness (buffer_m (data_m v)))"
            using r(2) ld(1) by simp
          fix i assume "i < length (liveness r)"
          then have i: "i < length (buffer_m d)" using r(2) by simp
          then have ic: "i < ?c" "i < length (buffer_m (data_m v))" using ldc vi(1) by simp_all
          have "(r ! i \<noteq> None) = (buffer_m (data_m v) ! i \<noteq> None)"
          proof (cases "r ! i = buffer_m d ! i")
            case True
            then show ?thesis using ld(2) [OF ic(2)] by simp
          next
            case False
            then have f: "size_m v \<le> i" "r ! i = None" using r(3) [OF i] by auto
            from vi(4) [OF f(1) ic(1)] f(2) show ?thesis by simp
          qed
          then show "liveness r ! i = liveness (buffer_m (data_m v)) ! i"
            using i ic r(2) by (simp add: liveness_nth)
        qed
        from invariant_liveness [OF assms(1) this]
        show ?thesis using head2 Throws sb by (simp add: with_buffer_def Capacity_def)
      next
        case r2: (Returns u' sb)
        then have q: "length (snd sb) = length (buffer_m d)"
          "\<And>i. i < length (buffer_m d) \<Longrightarrow> snd sb ! i =
              (if size_m v \<le> i \<and> i < size_m v + ?n
               then buffer_m (data_m rhs) ! (size_m v + (i - size_m v)) else buffer_m d ! i)"
          using sp by simp_all
        have lb: "length (snd sb) = ?c" using q(1) ldc by simp
        have pw: "snd sb ! i = (if i < size_m rhs then buffer_m (data_m rhs) ! i else None)"
          if "i < ?c" for i
        proof -
          have il: "i < length (buffer_m d)" using that ldc by simp
          show ?thesis
          proof (cases "i < size_m v")
            case True
            then show ?thesis using q(2) [OF il] t(3) [OF that] extend(2) by simp
          next
            case False
            then have ge: "size_m v \<le> i" by simp
            show ?thesis
            proof (cases "i < size_m rhs")
              case True
              have "i < size_m v + ?n" "size_m v + (i - size_m v) = i" using True ge by arith+
              then show ?thesis using q(2) [OF il] ge True by simp
            next
              case nr: False
              have "\<not> i < size_m v + ?n" using nr extend(2) by arith
              with vi(4) [OF ge that] show ?thesis using q(2) [OF il] t(3) [OF that] False nr by simp
            qed
          qed
        qed
        note st = assigned_state [OF assms extend(1) lb pw]
        show ?thesis using head2 r2 st by simp
      qed
    qed
  qed
qed

subsection \<open>The invariant in the reachable states\<close>

lemma Erase_precondition:
  assumes "invariant v" "Erase E p v \<noteq> Undefined"
  shows "p < size_m v"
proof (rule ccontr)
  assume "\<not> p < size_m v"
  then have ge: "size_m v \<le> p" by simp
  note inv = invariantD [OF assms(1)]
  have pl: "RawMemory_plus (data_m v) (size_m v) = Some (size_m v)"
    using inv(2) by (simp add: RawMemory_plus_def)
  have "Erase E p v = Undefined"
    using ge pl by (simp add: Erase_def std_move_def Let_def)
  then show False using assms(2) by simp
qed

lemma Emplace_precondition:
  assumes "Emplace E p a v \<noteq> Undefined"
  shows "p \<le> size_m v"
  using assms by (cases "p \<le> size_m v") (simp_all add: Emplace_def)

lemma Emplace_throws:
  assumes "invariant v" "Emplace E p a v = Throws e v'"
    and "p = size_m v \<or> size_m v = Capacity v \<or> a = None \<or>
         move_ctor_may_throw E (elements v ! (size_m v - 1))"
    and "fits_size_t E (size_m v * 2)"
  shows "invariant v' \<and> size_m v' = size_m v \<and> Capacity v' = Capacity v"
proof -
  have le: "p \<le> size_m v" using Emplace_precondition [where E = E and p = p and a = a and v = v] assms(2) by simp
  show ?thesis
  proof (cases "p = size_m v")
    case True
    then have "EmplaceBack E a v = Throws e v'" using assms(2) by (simp add: Emplace_def)
    from EmplaceBack_throws [OF assms(1) this] show ?thesis .
  next
    case False
    then have lt: "p < size_m v" using le by simp
    show ?thesis
    proof (cases "size_m v = Capacity v")
      case True
      then have "Emplace_growing E p a v = Throws e v'" using assms(2) lt by (simp add: Emplace_def)
      moreover have "fits_size_t E (if size_m v = 0 then 1 else size_m v * 2)"
        using assms(4) fits_size_t_1(1) [of E] by simp
      ultimately show ?thesis
        using Emplace_growing_cases [OF assms(1) lt True refl, where E = E and a = a] by simp
    next
      case ne: False
      then have t: "Emplace_in_place E p a v = Throws e v'" using assms(2) lt by (simp add: Emplace_def)
      have "a = None \<or> move_ctor_may_throw E (elements v ! (size_m v - 1))"
        using assms(3) False ne by simp
      then have "v' = v"
        using Emplace_in_place_cases [OF assms(1) lt ne, where E = E and a = a] t by auto
      then show ?thesis using assms(1) by simp
    qed
  qed
qed

lemma Resize_throws:
  assumes "invariant v" "Resize E k v = Throws e v'" "fits_size_t E k"
  shows "invariant v' \<and> size_m v' = size_m v"
proof (cases "k \<le> size_m v")
  case True
  from Resize_shrinking [OF assms(1) True, where E = E] show ?thesis using assms(2) by auto
next
  case False
  then have "size_m v < k" by simp
  from Resize_growing [OF assms(1) this assms(3), where e = e and v' = v'] show ?thesis using assms(2) by blast
qed

lemma PopBack_invariant:
  assumes "invariant v" "PopBack v = Returns u v'"
  shows "invariant v'"
proof (cases "size_m v = 0")
  case True
  then show ?thesis using PopBack_eq [OF assms(1)] assms by simp
next
  case False
  then show ?thesis using PopBack_eq [OF assms(1)] assms(2) invariant_shrink_one [OF assms(1) False]
    by simp
qed

text \<open>The invariant holds in every reachable state: on every normal return of every
  operation, and after every exception but the one that \<open>reachable\<close> leaves out.\<close>

lemma reachable_invariant:
  assumes "reachable E v"
  shows "invariant v"
  using assms
proof (induction rule: reachable.induct)
  case reach_default
  show ?case by (rule invariant_default)
next
  case (reach_sized n v)
  then show ?case using Vector_sized_cases [where E = E and n = n] by simp
next
  case (reach_copy w v)
  then show ?case using Vector_copy_cases [where w = w and E = E] by simp
next
  case (reach_copy_assign v w u v' e)
  then show ?case using copy_assign_other_cases [where v = v and rhs = w and E = E] by auto
next
  case (reach_PushBack v a u v' e)
  then show ?case using PushBack_returns [where v = v and E = E and a = a and u = u and v' = v'] PushBack_throws [where v = v and E = E and a = a and e = e and v' = v'] by blast
next
  case (reach_EmplaceBack v a p v' e)
  then show ?case using EmplaceBack_returns [where v = v and E = E and a = a and p = p and v' = v'] EmplaceBack_throws [where v = v and E = E and a = a and e = e and v' = v'] by blast
next
  case (reach_Insert v p a q v')
  then have e: "Emplace E p a v = Returns q v'" by (simp add: Insert_def)
  then have "p \<le> size_m v" using Emplace_precondition [where E = E and p = p and a = a and v = v] by simp
  from Emplace_returns [OF reach_Insert.IH this e] show ?case by simp
next
  case (reach_Insert_throws v p a e v')
  then have "Emplace E p a v = Throws e v'" by (simp add: Insert_def)
  from Emplace_throws [OF reach_Insert_throws.IH this reach_Insert_throws.hyps(3) reach_Insert_throws.hyps(4)] show ?case by simp
next
  case (reach_PopBack v u v')
  then show ?case using PopBack_invariant by blast
next
  case (reach_Erase v p q v' e)
  then have "Erase E p v \<noteq> Undefined" by auto
  from Erase_precondition [OF reach_Erase.IH this] have lt: "p < size_m v" .
  show ?case using reach_Erase.hyps(2) Erase_returns [OF reach_Erase.IH lt, where E = E and q = q and v' = v']
      Erase_throws [OF reach_Erase.IH lt, where E = E and e = e and v' = v'] by blast
next
  case (reach_Clear v u v')
  then show ?case using Clear_eq [where v = v] by auto
next
  case (reach_Resize v n u v' e)
  then show ?case using Resize_returns [where v = v and E = E and k = n and u = u and v' = v'] Resize_throws [where v = v and E = E and k = n and e = e and v' = v'] by blast
next
  case (reach_Reserve v n u v' e)
  then show ?case using Reserve_returns [where v = v and E = E and n = n and u = u and v' = v'] Reserve_throws [where v = v and E = E and n = n and e = e and v' = v'] by blast
qed

end
